theory Spec2Isabelle
  imports Main "HOL-Library.Sublist"
begin

section \<open>JavaScript strings\<close>

text \<open>
  A string is a list of code units. The model covers the code units U+0000 to U+00FF (one
  \<open>char\<close> each); class names are ASCII by the selector pattern of the parser. The
  functions below are the \<open>String.prototype\<close> methods the extension calls, restricted to
  that range.
\<close>

definition toLowerChar :: "char \<Rightarrow> char" where
  "toLowerChar c =
     (let n = (of_char c :: nat)
      in if (65 \<le> n \<and> n \<le> 90) \<or> (192 \<le> n \<and> n \<le> 222 \<and> n \<noteq> 215)
         then char_of (n + 32) else c)"

definition toLowerCase :: "string \<Rightarrow> string" where
  "toLowerCase s = map toLowerChar s"

text \<open>White space as \<open>trim\<close> and the pattern \<open>\s\<close> see it: tab, the line terminators,
  vertical tab, form feed, space and the no-break space.\<close>

definition isWhiteSpace :: "char \<Rightarrow> bool" where
  "isWhiteSpace c = ((of_char c :: nat) \<in> {9, 10, 11, 12, 13, 32, 160})"

text \<open>The pattern \<open>.\<close> matches every code unit that is not a line terminator.\<close>

definition isLineTerminator :: "char \<Rightarrow> bool" where
  "isLineTerminator c = ((of_char c :: nat) \<in> {10, 13})"

definition trim :: "string \<Rightarrow> string" where
  "trim s = rev (dropWhile isWhiteSpace (rev (dropWhile isWhiteSpace s)))"

definition startsWith :: "string \<Rightarrow> string \<Rightarrow> bool" where
  "startsWith s q = (take (length q) s = q)"

definition endsWith :: "string \<Rightarrow> string \<Rightarrow> bool" where
  "endsWith s q = (length q \<le> length s \<and> drop (length s - length q) s = q)"

fun includes_str :: "string \<Rightarrow> string \<Rightarrow> bool" where
  "includes_str [] q = (q = [])"
| "includes_str (c # cs) q = (startsWith (c # cs) q \<or> includes_str cs q)"

text \<open>\<open>s.split(",")\<close>: the pieces between the commas, empty pieces kept.\<close>

fun split_comma :: "string \<Rightarrow> string list" where
  "split_comma [] = [[]]"
| "split_comma (c # cs) =
     (if c = CHR '','' then [] # split_comma cs
      else (let ps = split_comma cs in (c # hd ps) # tl ps))"

text \<open>The character classes of the class pattern \<open>\.[a-zA-Z_][\w-]*\<close>.\<close>

definition isWordChar :: "char \<Rightarrow> bool" where
  "isWordChar c =
     (let n = (of_char c :: nat)
      in (65 \<le> n \<and> n \<le> 90) \<or> (97 \<le> n \<and> n \<le> 122) \<or> (48 \<le> n \<and> n \<le> 57) \<or> n = 95)"

definition isClassStart :: "char \<Rightarrow> bool" where
  "isClassStart c =
     (let n = (of_char c :: nat)
      in (65 \<le> n \<and> n \<le> 90) \<or> (97 \<le> n \<and> n \<le> 122) \<or> n = 95)"

definition isClassChar :: "char \<Rightarrow> bool" where
  "isClassChar c = (isWordChar c \<or> c = CHR ''-'')"

text \<open>\<open>s.match(/\.[a-zA-Z_][\w-]*/g) || []\<close>: all matches from left to right, each as long
  as possible, the search resuming behind a match.\<close>

function classMatches :: "string \<Rightarrow> string list" where
  "classMatches [] = []"
| "classMatches (c # cs) =
     (if c = CHR ''.'' then
        (case cs of
           [] \<Rightarrow> []
         | d # ds \<Rightarrow>
             if isClassStart d
             then (c # d # takeWhile isClassChar ds) # classMatches (dropWhile isClassChar ds)
             else classMatches cs)
      else classMatches cs)"
  by pat_completeness auto
termination
  by (relation "measure length") (auto simp: le_imp_less_Suc length_dropWhile_le le_SucI)

section \<open>The stylesheet parser (cssParser)\<close>

record CSSClass =
  name :: string
  properties :: "(string \<times> string) list"
  selector :: string
  sourceFile :: string
  line :: int
  column :: int
  category :: string
  description :: "string option"

record CSSParseResult =
  classes :: "CSSClass list"
  errors :: "string list"

text \<open>
  The syntax tree is postcss's, an external library. A rule is what the extension reads of
  it: the selector text, the declarations \<open>walkDecls\<close> visits in document order (property,
  value), the start position when the tree carries one (\<open>rule.source?.start?.line\<close>), and
  the node before the rule (\<open>rule.prev()\<close>). The root is the list of rules \<open>walkRules\<close>
  visits.
\<close>

datatype prev_node = NoNode | Comment string | OtherNode

record Rule =
  rule_selector :: string
  rule_decls :: "(string \<times> string) list"
  rule_line :: "int option"
  rule_column :: "int option"
  rule_prev :: prev_node

datatype js_error = CssSyntaxError string | FsError string

fun error_text :: "js_error \<Rightarrow> string" where
  "error_text (CssSyntaxError m) = ''CssSyntaxError: '' @ m"
| "error_text (FsError m) = ''Error: '' @ m"

text \<open>A plain object used as a dictionary: assigning an existing key replaces its value in
  place, a new key goes to the end. The keys are CSS property names; names an object treats
  specially (array indices, \<open>__proto__\<close>) are outside the model.\<close>

fun obj_set :: "(string \<times> string) list \<Rightarrow> string \<Rightarrow> string \<Rightarrow> (string \<times> string) list" where
  "obj_set [] k v = [(k, v)]"
| "obj_set ((k', v') # kvs) k v =
     (if k' = k then (k', v) # kvs else (k', v') # obj_set kvs k v)"

text \<open>\<open>properties.key\<close> in a condition: true when the key is there with a non-empty value.\<close>

definition truthy :: "(string \<times> string) list \<Rightarrow> string \<Rightarrow> bool" where
  "truthy props k = (case map_of props k of None \<Rightarrow> False | Some v \<Rightarrow> v \<noteq> [])"

definition parseSelector :: "string \<Rightarrow> string list" where
  "parseSelector sel =
     concat (map classMatches
       (filter (\<lambda>s. length s > 0) (map trim (split_comma sel))))"

fun isValidClassName :: "string \<Rightarrow> bool" where
  "isValidClassName (c # d # ds) = (c = CHR ''.'' \<and> isClassStart d \<and> list_all isClassChar ds)"
| "isValidClassName _ = False"

definition inferCategory :: "string \<Rightarrow> (string \<times> string) list \<Rightarrow> string" where
  "inferCategory className props =
     (let name = toLowerCase className in
      if includes_str name ''flex'' \<or> includes_str name ''grid'' \<or> truthy props ''display''
      then ''Layout''
      else if includes_str name ''text'' \<or> includes_str name ''font'' \<or> truthy props ''fontSize''
              \<or> truthy props ''fontFamily'' \<or> truthy props ''color''
      then ''Typography''
      else if includes_str name ''bg'' \<or> includes_str name ''background''
              \<or> truthy props ''backgroundColor'' \<or> truthy props ''background''
      then ''Background''
      else if includes_str name ''border'' \<or> truthy props ''border'' \<or> truthy props ''borderRadius''
      then ''Border''
      else if includes_str name ''p-'' \<or> includes_str name ''m-'' \<or> includes_str name ''padding''
              \<or> includes_str name ''margin'' \<or> truthy props ''padding'' \<or> truthy props ''margin''
      then ''Spacing''
      else if includes_str name ''w-'' \<or> includes_str name ''h-'' \<or> includes_str name ''width''
              \<or> includes_str name ''height'' \<or> truthy props ''width'' \<or> truthy props ''height''
      then ''Sizing''
      else if includes_str name ''hidden'' \<or> includes_str name ''visible''
              \<or> truthy props ''visibility'' \<or> truthy props ''opacity''
      then ''Visibility''
      else ''Utilities'')"

text \<open>
  \<open>comment.match(/@description\s+(.+)/)\<close>, returning capture group 1. The match is tried
  at each position from the left. At a position, \<open>\s+\<close> first takes the whole run of white
  space and gives characters back one at a time as long as \<open>(.+)\<close> finds nothing to match;
  \<open>(.+)\<close> takes the characters up to the next line terminator.
\<close>

fun descriptionGroup :: "nat \<Rightarrow> string \<Rightarrow> string option" where
  "descriptionGroup 0 rest = None"
| "descriptionGroup (Suc k) rest =
     (let g = takeWhile (\<lambda>c. \<not> isLineTerminator c) (drop (Suc k) rest)
      in if g \<noteq> [] then Some g else descriptionGroup k rest)"

definition descriptionMatchAt :: "string \<Rightarrow> string option" where
  "descriptionMatchAt s =
     (if startsWith s ''@description''
      then (let rest = drop (length ''@description'') s
            in descriptionGroup (length (takeWhile isWhiteSpace rest)) rest)
      else None)"

fun descriptionMatch :: "string \<Rightarrow> string option" where
  "descriptionMatch [] = None"
| "descriptionMatch (c # cs) =
     (case descriptionMatchAt (c # cs) of
        Some g \<Rightarrow> Some g
      | None \<Rightarrow> descriptionMatch cs)"

definition extractDescription :: "Rule \<Rightarrow> string option" where
  "extractDescription rule =
     (case rule_prev rule of
        Comment text \<Rightarrow>
          (let comment = trim text in
           case descriptionMatch comment of
             Some g \<Rightarrow> Some (trim g)
           | None \<Rightarrow>
               if \<not> includes_str comment ''@'' \<and> length comment < 100 then Some comment
               else None)
      | _ \<Rightarrow> None)"

text \<open>\<open>x || 0\<close> on an optional number.\<close>

definition or_zero :: "int option \<Rightarrow> int" where
  "or_zero x = (case x of None \<Rightarrow> 0 | Some n \<Rightarrow> n)"

text \<open>The object \<open>rule.walkDecls\<close> fills: \<open>properties[decl.prop] = decl.value\<close> for each
  declaration in turn.\<close>

definition walkDecls :: "Rule \<Rightarrow> (string \<times> string) list" where
  "walkDecls rule = foldl (\<lambda>ps (prop, val). obj_set ps prop val) [] (rule_decls rule)"

text \<open>The body of \<open>selectors.forEach\<close> in \<open>extractClassesFromAST\<close>: the records one selector
  token of a rule adds to \<open>result.classes\<close>. On a tree as above (selector, property, value
  and comment text are strings) nothing in the \<open>try\<close> block around a rule throws, so its
  \<open>catch\<close> has no branch here.\<close>

definition selectorClasses :: "string \<Rightarrow> Rule \<Rightarrow> string \<Rightarrow> CSSClass list" where
  "selectorClasses filePath rule sel =
     (if startsWith sel ''.'' \<and> isValidClassName sel then
        (let className = drop 1 sel;
             props = walkDecls rule
         in if length (map fst props) > 0 then
              (let d = extractDescription rule in
               [\<lparr> name = className,
                  properties = props,
                  selector = rule_selector rule,
                  sourceFile = filePath,
                  line = or_zero (rule_line rule),
                  column = or_zero (rule_column rule),
                  category = inferCategory className props,
                  description = (case d of None \<Rightarrow> None
                                 | Some t \<Rightarrow> if t = [] then None else Some t) \<rparr>])
            else [])
      else [])"

definition ruleClasses :: "string \<Rightarrow> Rule \<Rightarrow> CSSClass list" where
  "ruleClasses filePath rule =
     concat (map (selectorClasses filePath rule) (parseSelector (rule_selector rule)))"

definition extractClassesFromAST :: "Rule list \<Rightarrow> CSSParseResult \<Rightarrow> string \<Rightarrow> CSSParseResult" where
  "extractClassesFromAST root result filePath =
     result\<lparr> classes := classes result @ concat (map (ruleClasses filePath) root) \<rparr>"

text \<open>
  What the extension does not own: the file system and the two postcss parsers. A read or
  a parse either throws (\<open>Inl\<close>) or returns (\<open>Inr\<close>).
\<close>

record World =
  readFileSync :: "string \<Rightarrow> js_error + string"
  postcss_parse :: "string \<Rightarrow> string \<Rightarrow> js_error + Rule list"
  postcssScss_parse :: "string \<Rightarrow> string \<Rightarrow> js_error + Rule list"

text \<open>The \<open>try\<close> block of \<open>parseCSS\<close>, then \<open>parseCSS\<close> with its \<open>catch\<close>.\<close>

definition parseCSS_try :: "World \<Rightarrow> CSSParseResult \<Rightarrow> string \<Rightarrow> string \<Rightarrow> js_error + CSSParseResult" where
  "parseCSS_try w result content filePath =
     (let isScss = (endsWith filePath ''.scss'' \<or> endsWith filePath ''.sass'');
          processor = (if isScss then postcssScss_parse w else postcss_parse w)
      in case processor content filePath of
           Inl e \<Rightarrow> Inl e
         | Inr ast \<Rightarrow> Inr (extractClassesFromAST ast result filePath))"

definition parseCSS :: "World \<Rightarrow> string \<Rightarrow> string \<Rightarrow> CSSParseResult" where
  "parseCSS w content filePath =
     (let result = \<lparr> classes = [], errors = [] \<rparr>
      in case parseCSS_try w result content filePath of
           Inl e \<Rightarrow>
             result\<lparr> errors := errors result
                        @ [''Failed to parse '' @ filePath @ '': '' @ error_text e] \<rparr>
         | Inr r \<Rightarrow> r)"

section \<open>The class index (indexer)\<close>

text \<open>
  \<open>classIndex\<close> is a JavaScript \<open>Map\<close>: it iterates in insertion order, \<open>set\<close> on a key
  already there replaces the value where it stands, \<open>delete\<close> takes the entry out.
\<close>

type_synonym ClassIndex = "(string \<times> CSSClass) list"

fun Map_set :: "ClassIndex \<Rightarrow> string \<Rightarrow> CSSClass \<Rightarrow> ClassIndex" where
  "Map_set [] k v = [(k, v)]"
| "Map_set ((k', v') # kvs) k v =
     (if k' = k then (k', v) # kvs else (k', v') # Map_set kvs k v)"

definition Map_delete :: "ClassIndex \<Rightarrow> string \<Rightarrow> ClassIndex" where
  "Map_delete idx k = filter (\<lambda>(k', v'). k' \<noteq> k) idx"

definition removeClassesFromFile :: "ClassIndex \<Rightarrow> string \<Rightarrow> ClassIndex" where
  "removeClassesFromFile idx filePath =
     (let classesToRemove = map fst (filter (\<lambda>(className, cssClass). sourceFile cssClass = filePath) idx)
      in foldl Map_delete idx classesToRemove)"

text \<open>The \<open>try\<close> block of \<open>indexFile\<close>, then \<open>indexFile\<close> with its \<open>catch\<close>, which logs and
  returns.\<close>

definition indexFile_try :: "World \<Rightarrow> ClassIndex \<Rightarrow> string \<Rightarrow> js_error + ClassIndex" where
  "indexFile_try w idx filePath =
     (case readFileSync w filePath of
        Inl e \<Rightarrow> Inl e
      | Inr content \<Rightarrow>
          (let result = parseCSS w content filePath;
               idx1 = removeClassesFromFile idx filePath
           in Inr (foldl (\<lambda>i cssClass. Map_set i (name cssClass) cssClass) idx1 (classes result))))"

definition indexFile :: "World \<Rightarrow> ClassIndex \<Rightarrow> string \<Rightarrow> js_error + ClassIndex" where
  "indexFile w idx filePath =
     (case indexFile_try w idx filePath of
        Inl e \<Rightarrow> Inr idx
      | Inr idx' \<Rightarrow> Inr idx')"

text \<open>\<open>indexWorkspace\<close> on the files the workspace search found, in their order. The calls
  of \<open>indexFile\<close> are started together; each reads and parses at once and updates the index
  in a continuation, and the continuations run in the order of the files, one at a time.\<close>

fun indexWorkspace :: "World \<Rightarrow> ClassIndex \<Rightarrow> string list \<Rightarrow> js_error + ClassIndex" where
  "indexWorkspace w idx [] = Inr idx"
| "indexWorkspace w idx (f # fs) =
     (case indexFile w idx f of
        Inl e \<Rightarrow> Inl e
      | Inr idx' \<Rightarrow> indexWorkspace w idx' fs)"

definition clearCache :: "ClassIndex \<Rightarrow> ClassIndex" where
  "clearCache idx = []"

definition rescanFiles :: "World \<Rightarrow> ClassIndex \<Rightarrow> string list \<Rightarrow> js_error + ClassIndex" where
  "rescanFiles w idx files = indexWorkspace w [] files"

definition getAllClasses :: "ClassIndex \<Rightarrow> CSSClass list" where
  "getAllClasses idx = map snd idx"

definition getClass :: "ClassIndex \<Rightarrow> string \<Rightarrow> CSSClass option" where
  "getClass idx className = map_of idx className"

subsection \<open>Search\<close>

function fuzzyLoop :: "string \<Rightarrow> string \<Rightarrow> nat \<Rightarrow> nat \<Rightarrow> int \<Rightarrow> int \<Rightarrow> nat \<times> int" where
  "fuzzyLoop text pattern i patternIndex score consecutiveMatches =
     (if i < length text \<and> patternIndex < length pattern then
        (if text ! i = pattern ! patternIndex
         then fuzzyLoop text pattern (i + 1) (patternIndex + 1)
                (score + (1 + consecutiveMatches)) (consecutiveMatches + 1)
         else fuzzyLoop text pattern (i + 1) patternIndex score 0)
      else (patternIndex, score))"
  by pat_completeness auto
termination
  by (relation "measure (\<lambda>(text, pattern, i, r). length text - i)") auto

declare fuzzyLoop.simps [simp del]

definition fuzzyMatch :: "string \<Rightarrow> string \<Rightarrow> int" where
  "fuzzyMatch text pattern =
     (case fuzzyLoop text pattern 0 0 0 0 of
        (patternIndex, score) \<Rightarrow>
          if patternIndex = length pattern then min (score * 2) 40 else 0)"

definition calculateMatchScore :: "string \<Rightarrow> string \<Rightarrow> int" where
  "calculateMatchScore className query =
     (let nameLower = toLowerCase className in
      if nameLower = query then 100
      else if startsWith nameLower query then 80
      else if includes_str nameLower query then 60
      else fuzzyMatch nameLower query)"

text \<open>\<open>xs.slice(0, n)\<close>: a negative \<open>n\<close> counts from the end.\<close>

definition slice0 :: "'a list \<Rightarrow> int \<Rightarrow> 'a list" where
  "slice0 xs n =
     (if n < 0 then take (nat (int (length xs) + n)) xs else take (nat n) xs)"

text \<open>\<open>results.sort((a, b) => b.score - a.score)\<close>: the sort is stable, so it is the
  insertion sort on the negated score.\<close>

definition sortByScore :: "(CSSClass \<times> int) list \<Rightarrow> (CSSClass \<times> int) list" where
  "sortByScore results = sort_key (\<lambda>r. - snd r) results"

text \<open>\<open>searchClasses\<close> with the limit written out; a caller that passes none gets 50.\<close>

definition searchClasses :: "ClassIndex \<Rightarrow> string \<Rightarrow> int \<Rightarrow> CSSClass list" where
  "searchClasses idx query maxResults =
     (if length query = 0 then slice0 (getAllClasses idx) maxResults
      else
        (let queryLower = toLowerCase query;
             results = concat (map (\<lambda>(k, cssClass).
                          (let score = calculateMatchScore (name cssClass) queryLower
                           in if score > 0 then [(cssClass, score)] else [])) idx)
         in map fst (slice0 (sortByScore results) maxResults)))"

section \<open>Notions the properties are stated with\<close>

text \<open>
  The fuzzy tier in the words of its description: \<open>matchFlags text pattern\<close> marks, for each
  character of the text the scan looks at, whether it matched the next open character of the
  pattern; \<open>precedingRun flags i\<close> counts the matches that stand immediately before position
  \<open>i\<close> without a gap; \<open>runningTotal\<close> adds, for each matched position, one plus that count.
\<close>

fun matchFlags :: "string \<Rightarrow> string \<Rightarrow> bool list" where
  "matchFlags [] p = []"
| "matchFlags (t # ts) [] = []"
| "matchFlags (t # ts) (p # ps) =
     (if t = p then True # matchFlags ts ps else False # matchFlags ts (p # ps))"

definition precedingRun :: "bool list \<Rightarrow> nat \<Rightarrow> nat" where
  "precedingRun flags i = length (takeWhile (\<lambda>b. b) (rev (take i flags)))"

definition runningTotal :: "bool list \<Rightarrow> int" where
  "runningTotal flags =
     (\<Sum>i\<leftarrow>[0..<length flags]. if flags ! i then 1 + int (precedingRun flags i) else 0)"

text \<open>The same total by recursion over the flags, with the current run as argument; used in
  the proofs only.\<close>

fun scoreOf :: "int \<Rightarrow> bool list \<Rightarrow> int" where
  "scoreOf c [] = 0"
| "scoreOf c (b # bs) = (if b then 1 + c + scoreOf (c + 1) bs else scoreOf 0 bs)"

text \<open>The list \<open>results\<close> of \<open>searchClasses\<close> before it is sorted.\<close>

definition searchResults :: "ClassIndex \<Rightarrow> string \<Rightarrow> (CSSClass \<times> int) list" where
  "searchResults idx queryLower =
     concat (map (\<lambda>(k, cssClass).
        (let score = calculateMatchScore (name cssClass) queryLower
         in if score > 0 then [(cssClass, score)] else [])) idx)"

text \<open>An index for the examples: three classes from two files.\<close>

definition exampleClass :: "string \<Rightarrow> string \<Rightarrow> CSSClass" where
  "exampleClass file n =
     \<lparr> name = n, properties = [(''color'', ''red'')], selector = CHR ''.'' # n,
       sourceFile = file, line = 1, column = 1,
       category = inferCategory n [(''color'', ''red'')], description = None \<rparr>"

definition exampleIndex :: ClassIndex where
  "exampleIndex =
     [(''xyz'', exampleClass ''/a.css'' ''xyz''),
      (''btn-primary'', exampleClass ''/a.css'' ''btn-primary''),
      (''primary'', exampleClass ''/b.css'' ''primary'')]"

text \<open>The property keys on which the category tiers of the code and of its description
  differ: the four keys the code reads and the four hyphenated keys of the description.\<close>

definition slipKeys :: "string list" where
  "slipKeys = [''fontSize'', ''fontFamily'', ''backgroundColor'', ''borderRadius'',
               ''font-size'', ''font-family'', ''background-color'', ''border-radius'']"

text \<open>The parser \<open>parseCSS\<close> selects for a path.\<close>

definition processorFor :: "World \<Rightarrow> string \<Rightarrow> string \<Rightarrow> string \<Rightarrow> js_error + Rule list" where
  "processorFor w filePath =
     (if endsWith filePath ''.scss'' \<or> endsWith filePath ''.sass''
      then postcssScss_parse w else postcss_parse w)"

text \<open>The record \<open>extractClassesFromAST\<close> builds for a class token of a rule.\<close>

definition recordOf :: "string \<Rightarrow> Rule \<Rightarrow> string \<Rightarrow> CSSClass" where
  "recordOf filePath rule tok =
     \<lparr> name = drop 1 tok,
       properties = walkDecls rule,
       selector = rule_selector rule,
       sourceFile = filePath,
       line = or_zero (rule_line rule),
       column = or_zero (rule_column rule),
       category = inferCategory (drop 1 tok) (walkDecls rule),
       description = (case extractDescription rule of None \<Rightarrow> None
                      | Some t \<Rightarrow> if t = [] then None else Some t) \<rparr>"

text \<open>The loop \<open>result.classes.forEach(cssClass => classIndex.set(cssClass.name, cssClass))\<close>
  of \<open>indexFile\<close>.\<close>

definition setAll :: "ClassIndex \<Rightarrow> CSSClass list \<Rightarrow> ClassIndex" where
  "setAll idx cs = foldl (\<lambda>i cssClass. Map_set i (name cssClass) cssClass) idx cs"

text \<open>The invariant of the index that every record owns at least one declaration.\<close>

definition nonEmptyProps :: "ClassIndex \<Rightarrow> bool" where
  "nonEmptyProps idx = list_all (\<lambda>(k, c). properties c \<noteq> []) idx"

text \<open>
  Rules and worlds for the examples. \<open>buttonRule\<close> is \<open>.btn, .btn-primary\<close> with two
  declarations of \<open>color\<close>, \<open>emptyRule\<close> a rule without declarations, \<open>helperRule\<close> a rule
  behind the comment \<open>helper\<close>. In \<open>exampleWorld\<close> every file can be read and \<open>/bad.css\<close>
  does not parse; in \<open>brokenWorld\<close> no file parses; in \<open>goneWorld\<close> no file can be read; in
  \<open>emptyWorld\<close> every file is empty.
\<close>

definition buttonRule :: Rule where
  "buttonRule =
     \<lparr> rule_selector = ''.btn, .btn-primary'',
       rule_decls = [(''color'', ''red''), (''color'', ''green'')],
       rule_line = Some 1, rule_column = Some 1, rule_prev = NoNode \<rparr>"

definition emptyRule :: Rule where
  "emptyRule =
     \<lparr> rule_selector = ''.card.active > .title'',
       rule_decls = [],
       rule_line = Some 5, rule_column = Some 1, rule_prev = OtherNode \<rparr>"

definition helperRule :: Rule where
  "helperRule =
     \<lparr> rule_selector = ''.btn'',
       rule_decls = [(''color'', ''blue''), (''margin'', ''0'')],
       rule_line = Some 3, rule_column = Some 1, rule_prev = Comment '' helper '' \<rparr>"

definition exampleRules :: "string \<Rightarrow> js_error + Rule list" where
  "exampleRules from =
     (if from = ''/bad.css'' then Inl (CssSyntaxError ''Unclosed block'')
      else if from = ''/a.css'' then Inr [buttonRule, emptyRule]
      else if from = ''/b.css'' then Inr [helperRule]
      else Inr [])"

definition exampleWorld :: World where
  "exampleWorld =
     \<lparr> readFileSync = (\<lambda>p. Inr (''content of '' @ p)),
       postcss_parse = (\<lambda>content from. exampleRules from),
       postcssScss_parse = (\<lambda>content from. exampleRules from) \<rparr>"

definition brokenWorld :: World where
  "brokenWorld =
     \<lparr> readFileSync = (\<lambda>p. Inr ''.primary { color: red''),
       postcss_parse = (\<lambda>content from. Inl (CssSyntaxError ''Unclosed block'')),
       postcssScss_parse = (\<lambda>content from. Inl (CssSyntaxError ''Unclosed block'')) \<rparr>"

definition goneWorld :: World where
  "goneWorld =
     \<lparr> readFileSync = (\<lambda>p. Inl (FsError ''ENOENT: no such file'')),
       postcss_parse = (\<lambda>content from. Inr []),
       postcssScss_parse = (\<lambda>content from. Inr []) \<rparr>"

definition emptyWorld :: World where
  "emptyWorld =
     \<lparr> readFileSync = (\<lambda>p. Inr []),
       postcss_parse = (\<lambda>content from. Inr []),
       postcssScss_parse = (\<lambda>content from. Inr []) \<rparr>"

text \<open>A comment carries a description marker when it contains \<open>@description\<close>, then white
  space, then a character that does not end the line.\<close>

definition descriptionMarker :: "string \<Rightarrow> bool" where
  "descriptionMarker c =
     (\<exists>pre ws x rest.
        c = pre @ ''@description'' @ ws @ x # rest
      \<and> ws \<noteq> [] \<and> list_all isWhiteSpace ws \<and> \<not> isLineTerminator x)"

text \<open>A rule behind a one-line documentation comment, and the text of a comment of several
  lines with a category tag before the description tag.\<close>

definition docRule :: Rule where
  "docRule =
     \<lparr> rule_selector = ''.flex-center'',
       rule_decls = [(''display'', ''flex'')],
       rule_line = Some 4, rule_column = Some 1,
       rule_prev = Comment ''* @description Centers content '' \<rparr>"

definition readmeComment :: string where
  "readmeComment =
     ''*'' @ [CHR 0x0A] @ '' * @category Layout  '' @ [CHR 0x0A]
     @ '' * @description Centers content horizontally and vertically'' @ [CHR 0x0A] @ '' ''"

text \<open>
  The contract of the parsers on source positions: postcss and postcss-scss give every rule
  they parse a start position, with lines and columns counted from 1. \<open>oneBased\<close> is the
  property of an index that every record has such a position.
\<close>

definition positioned :: "Rule \<Rightarrow> bool" where
  "positioned rule =
     ((case rule_line rule of None \<Rightarrow> False | Some l \<Rightarrow> 1 \<le> l)
      \<and> (case rule_column rule of None \<Rightarrow> False | Some n \<Rightarrow> 1 \<le> n))"

definition parserContract :: "World \<Rightarrow> bool" where
  "parserContract w =
     (\<forall>content from rules.
        (postcss_parse w content from = Inr rules \<or> postcssScss_parse w content from = Inr rules)
        \<longrightarrow> list_all positioned rules)"

definition oneBased :: "ClassIndex \<Rightarrow> bool" where
  "oneBased idx = list_all (\<lambda>(k, c). 1 \<le> line c \<and> 1 \<le> column c) idx"

section \<open>Strings: prefixes, substrings, subsequences\<close>

lemma startsWith_prefix: "startsWith s q \<longleftrightarrow> prefix q s"
  unfolding startsWith_def by (metis append_eq_conv_conj prefix_def)

lemma includes_str_sublist: "includes_str s q \<longleftrightarrow> sublist q s"
  by (induction s) (auto simp: startsWith_prefix sublist_Cons_right)

lemma matchFlags_drop:
  "i < length tx \<Longrightarrow> k < length pt \<Longrightarrow>
   matchFlags (drop i tx) (drop k pt) =
     (if tx ! i = pt ! k
      then True # matchFlags (drop (Suc i) tx) (drop (Suc k) pt)
      else False # matchFlags (drop (Suc i) tx) (drop k pt))"
  by (simp add: Cons_nth_drop_Suc [symmetric])

lemma matchFlags_Nil2: "matchFlags ts [] = []"
  by (cases ts) auto

lemma fuzzyLoop_flags:
  "fuzzyLoop tx pt i k s c =
     (k + length (filter (\<lambda>b. b) (matchFlags (drop i tx) (drop k pt))),
      s + scoreOf c (matchFlags (drop i tx) (drop k pt)))"
proof (induction tx pt i k s c rule: fuzzyLoop.induct)
  case (1 tx pt i k s c)
  show ?case
  proof (cases "i < length tx \<and> k < length pt")
    case True
    then show ?thesis
      using 1 by (subst fuzzyLoop.simps) (simp add: matchFlags_drop)
  next
    case False
    then show ?thesis
      by (subst fuzzyLoop.simps) (auto simp: matchFlags_Nil2)
  qed
qed

lemma consumed_iff_subseq:
  "length (filter (\<lambda>b. b) (matchFlags tx pt)) = length pt \<longleftrightarrow> subseq pt tx"
proof (induction tx pt rule: matchFlags.induct)
  case (3 t ts p ps)
  then show ?case by auto
qed auto


lemma precedingRun_Cons:
  assumes "i < length fs"
  shows "int (precedingRun (b # fs) (Suc i))
           + (if precedingRun (b # fs) (Suc i) = Suc i then c else 0)
         = int (precedingRun fs i)
           + (if precedingRun fs i = i then (if b then c + 1 else 0) else 0)"
proof (cases "\<forall>x \<in> set (take i fs). x")
  case True
  then have tw: "takeWhile (\<lambda>b. b) (rev (take i fs)) = rev (take i fs)"
    by (simp add: takeWhile_eq_all_conv)
  have a: "precedingRun fs i = i"
    unfolding precedingRun_def tw using assms by simp
  from True have tw': "takeWhile (\<lambda>b. b) (rev (take i fs) @ [b])
      = rev (take i fs) @ (if b then [b] else [])"
    by (subst takeWhile_append2) auto
  have "precedingRun (b # fs) (Suc i)
      = length (takeWhile (\<lambda>b. b) (rev (take i fs) @ [b]))"
    by (simp add: precedingRun_def)
  also have "\<dots> = length (rev (take i fs) @ (if b then [b] else []))"
    by (simp only: tw')
  also have "\<dots> = (if b then Suc i else i)"
    using assms by simp
  finally have b: "precedingRun (b # fs) (Suc i) = (if b then Suc i else i)" .
  show ?thesis
    unfolding a b by simp
next
  case False
  then have eq: "takeWhile (\<lambda>b. b) (rev (take i fs) @ [b])
      = takeWhile (\<lambda>b. b) (rev (take i fs))"
    by (auto simp: takeWhile_append1)
  from False have "takeWhile (\<lambda>b. b) (rev (take i fs)) \<noteq> rev (take i fs)"
    by (simp add: takeWhile_eq_all_conv)
  then have "length (takeWhile (\<lambda>b. b) (rev (take i fs))) < length (rev (take i fs))"
    by (metis length_takeWhile_le le_neq_implies_less takeWhile_eq_take take_all order_refl)
  then have "precedingRun fs i < i"
    using assms by (simp add: precedingRun_def)
  moreover have "precedingRun (b # fs) (Suc i) = precedingRun fs i"
    using eq by (simp add: precedingRun_def)
  ultimately show ?thesis by simp
qed

lemma scoreOf_sum:
  "scoreOf c fs =
     (\<Sum>i\<leftarrow>[0..<length fs].
        if fs ! i then 1 + (int (precedingRun fs i) + (if precedingRun fs i = i then c else 0))
        else 0)"
proof (induction fs arbitrary: c)
  case Nil
  show ?case by simp
next
  case (Cons b fs)
  let ?f = "\<lambda>c fs i. if fs ! i
              then 1 + (int (precedingRun fs i) + (if precedingRun fs i = i then c else 0))
              else (0::int)"
  have split: "[0..<length (b # fs)] = 0 # map Suc [0..<length fs]"
    by (simp add: upt_conv_Cons map_Suc_upt del: upt_Suc)
  have step: "\<And>i. i \<in> set [0..<length fs] \<Longrightarrow>
      ?f c (b # fs) (Suc i) = ?f (if b then c + 1 else 0) fs i"
    using precedingRun_Cons [of _ fs b c] by simp
  have "(\<Sum>i\<leftarrow>[0..<length (b # fs)]. ?f c (b # fs) i)
      = ?f c (b # fs) 0 + (\<Sum>i\<leftarrow>[0..<length fs]. ?f c (b # fs) (Suc i))"
    unfolding split by (simp add: comp_def)
  also have "(\<Sum>i\<leftarrow>[0..<length fs]. ?f c (b # fs) (Suc i))
      = (\<Sum>i\<leftarrow>[0..<length fs]. ?f (if b then c + 1 else 0) fs i)"
    using step by (intro arg_cong [where f = sum_list] map_cong refl) blast
  also have "\<dots> = scoreOf (if b then c + 1 else 0) fs"
    by (rule Cons.IH [symmetric])
  finally show ?case
    by (simp add: precedingRun_def)
qed

lemma scoreOf_runningTotal: "scoreOf 0 fs = runningTotal fs"
  by (simp add: scoreOf_sum runningTotal_def cong: if_cong)

lemma scoreOf_ge: "0 \<le> c \<Longrightarrow> int (length (filter (\<lambda>b. b) fs)) \<le> scoreOf c fs"
proof (induction fs arbitrary: c)
  case Nil
  show ?case by simp
next
  case (Cons b fs)
  from Cons.IH [of "c + 1"] Cons.IH [of 0] Cons.prems show ?case by auto
qed

lemma fuzzyMatch_flags:
  "fuzzyMatch tx pt =
     (if length (filter (\<lambda>b. b) (matchFlags tx pt)) = length pt
      then min (runningTotal (matchFlags tx pt) * 2) 40 else 0)"
  by (simp add: fuzzyMatch_def fuzzyLoop_flags scoreOf_runningTotal)

lemma fuzzyMatch_pos_iff:
  assumes "pt \<noteq> []"
  shows "0 < fuzzyMatch tx pt \<longleftrightarrow> subseq pt tx"
proof -
  have "0 < runningTotal (matchFlags tx pt)"
    if "length (filter (\<lambda>b. b) (matchFlags tx pt)) = length pt"
    using scoreOf_ge [of 0 "matchFlags tx pt"] that assms
    by (cases pt) (simp_all add: scoreOf_runningTotal)
  then show ?thesis
    by (auto simp: fuzzyMatch_flags consumed_iff_subseq [symmetric])
qed

lemma calculateMatchScore_pos_subseq:
  assumes "0 < calculateMatchScore n q"
  shows "subseq q (toLowerCase n)"
proof (cases "q = []")
  case True
  then show ?thesis by simp
next
  case False
  show ?thesis
    using assms fuzzyMatch_pos_iff [OF False, of "toLowerCase n"]
    by (auto simp: calculateMatchScore_def Let_def startsWith_prefix includes_str_sublist
          split: if_splits dest: prefix_imp_subseq sublist_imp_subseq)
qed

section \<open>Search\<close>

lemma searchClasses_results:
  "query \<noteq> [] \<Longrightarrow>
   searchClasses idx query m =
     map fst (slice0 (sortByScore (searchResults idx (toLowerCase query))) m)"
  by (simp add: searchClasses_def searchResults_def Let_def)

lemma searchResults_filter:
  "searchResults idx q =
     map (\<lambda>c. (c, calculateMatchScore (name c) q))
       (filter (\<lambda>c. 0 < calculateMatchScore (name c) q) (getAllClasses idx))"
  by (induction idx) (auto simp: searchResults_def getAllClasses_def Let_def)

lemma set_slice0: "set (slice0 xs n) \<subseteq> set xs"
  by (auto simp: slice0_def dest: in_set_takeD)

lemma slice0_all: "int (length xs) \<le> n \<Longrightarrow> slice0 xs n = xs"
  by (auto simp: slice0_def)

lemma slice0_map: "slice0 (map f xs) n = map f (slice0 xs n)"
  by (simp add: slice0_def take_map)

lemma length_slice0_le: "0 \<le> n \<Longrightarrow> int (length (slice0 xs n)) \<le> n"
  by (auto simp: slice0_def)

lemma sorted_wrt_slice0: "sorted_wrt R xs \<Longrightarrow> sorted_wrt R (slice0 xs n)"
  by (simp add: slice0_def sorted_wrt_take)

lemma sortByScore_sorted: "sorted_wrt (\<lambda>a b. snd b \<le> snd a) (sortByScore rs)"
proof -
  have "sorted (map (\<lambda>r. - snd r) (sortByScore rs))"
    unfolding sortByScore_def by (rule sorted_sort_key)
  then show ?thesis
    by (simp add: sorted_map sorted_wrt_iff_nth_less)
qed

lemma set_sortByScore: "set (sortByScore rs) = set rs"
  by (simp add: sortByScore_def)

lemma length_sortByScore: "length (sortByScore rs) = length rs"
  by (simp add: sortByScore_def)

lemma snd_searchResults:
  "r \<in> set (searchResults idx q) \<Longrightarrow> snd r = calculateMatchScore (name (fst r)) q"
  by (auto simp: searchResults_filter)

lemma searchClasses_sorted:
  assumes "query \<noteq> []"
  shows "sorted_wrt (\<lambda>a b. calculateMatchScore (name b) (toLowerCase query)
                            \<le> calculateMatchScore (name a) (toLowerCase query))
           (searchClasses idx query m)"
proof -
  let ?q = "toLowerCase query"
  let ?rs = "slice0 (sortByScore (searchResults idx ?q)) m"
  have srt: "sorted_wrt (\<lambda>a b. snd b \<le> snd a) ?rs"
    by (intro sorted_wrt_slice0 sortByScore_sorted)
  have sc: "snd r = calculateMatchScore (name (fst r)) ?q" if "r \<in> set ?rs" for r
    using that set_slice0 [of "sortByScore (searchResults idx ?q)" m]
    by (intro snd_searchResults) (auto simp: set_sortByScore)
  have "sorted_wrt (\<lambda>a b. calculateMatchScore (name (fst b)) ?q
                            \<le> calculateMatchScore (name (fst a)) ?q) ?rs"
  proof (rule sorted_wrt_mono_rel [OF _ srt])
    fix x y
    assume "x \<in> set ?rs" and "y \<in> set ?rs" and "snd y \<le> snd x"
    then show "calculateMatchScore (name (fst y)) ?q \<le> calculateMatchScore (name (fst x)) ?q"
      by (simp add: sc)
  qed
  then show ?thesis
    by (simp add: searchClasses_results [OF assms] sorted_wrt_map)
qed

lemma searchClasses_subset:
  assumes "query \<noteq> []"
  shows "set (searchClasses idx query m)
           \<subseteq> {c \<in> set (getAllClasses idx). 0 < calculateMatchScore (name c) (toLowerCase query)}"
proof -
  have "set (searchClasses idx query m)
          \<subseteq> fst ` set (sortByScore (searchResults idx (toLowerCase query)))"
    using set_slice0 [of "sortByScore (searchResults idx (toLowerCase query))" m]
    by (auto simp: searchClasses_results [OF assms])
  then show ?thesis
    by (auto simp: set_sortByScore searchResults_filter)
qed

lemma searchClasses_all:
  assumes "query \<noteq> []" and "int (length idx) \<le> m"
  shows "set (searchClasses idx query m)
           = {c \<in> set (getAllClasses idx). 0 < calculateMatchScore (name c) (toLowerCase query)}"
proof -
  have "length (searchResults idx (toLowerCase query)) \<le> length idx"
    by (simp add: searchResults_filter getAllClasses_def
          order_trans [OF length_filter_le])
  then have "slice0 (sortByScore (searchResults idx (toLowerCase query))) m
               = sortByScore (searchResults idx (toLowerCase query))"
    using assms(2) by (intro slice0_all) (simp add: length_sortByScore)
  then show ?thesis
    by (auto simp: searchClasses_results [OF assms(1)] set_sortByScore searchResults_filter
          image_iff)
qed

lemma calculateMatchScore_tiers:
  "calculateMatchScore n q =
     (if toLowerCase n = q then 100
      else if prefix q (toLowerCase n) then 80
      else if sublist q (toLowerCase n) then 60
      else fuzzyMatch (toLowerCase n) q)"
  by (simp add: calculateMatchScore_def Let_def startsWith_prefix includes_str_sublist)

lemma length_searchClasses_all:
  assumes "query \<noteq> []" and "int (length idx) \<le> m"
  shows "length (searchClasses idx query m)
           = length (filter (\<lambda>c. 0 < calculateMatchScore (name c) (toLowerCase query))
               (getAllClasses idx))"
proof -
  have "length (searchResults idx (toLowerCase query)) \<le> length idx"
    by (simp add: searchResults_filter getAllClasses_def
          order_trans [OF length_filter_le])
  then have "slice0 (sortByScore (searchResults idx (toLowerCase query))) m
               = sortByScore (searchResults idx (toLowerCase query))"
    using assms(2) by (intro slice0_all) (simp add: length_sortByScore)
  then show ?thesis
    by (simp add: searchClasses_results [OF assms(1)] length_sortByScore searchResults_filter)
qed

lemma searchClasses_subseq:
  assumes "r \<in> set (searchClasses idx query m)"
  shows "subseq (toLowerCase query) (toLowerCase (name r))"
proof (cases "query = []")
  case True
  then show ?thesis by (simp add: toLowerCase_def)
next
  case False
  from searchClasses_subset [OF False, of idx m] assms
  have "0 < calculateMatchScore (name r) (toLowerCase query)" by auto
  then show ?thesis by (rule calculateMatchScore_pos_subseq)
qed

text \<open>
  Claim C2. The fuzzy score is the result of one scan from left to right that matches the
  pattern as a subsequence of the text: each matched character adds one plus the number of
  matches immediately before it; the score is \<open>min (total * 2) 40\<close> when the whole pattern
  was consumed, which is the case exactly when the pattern is a subsequence of the text, and
  0 otherwise. A non-empty pattern that is consumed scores above 0. Hence every record a
  search returns has a lowercased name that contains the lowercased query as a subsequence.
\<close>

theorem C2_fuzzy_tier:
  "fuzzyMatch tx pt =
     (if length (filter (\<lambda>b. b) (matchFlags tx pt)) = length pt
      then min (runningTotal (matchFlags tx pt) * 2) 40 else 0)
   \<and> (length (filter (\<lambda>b. b) (matchFlags tx pt)) = length pt \<longleftrightarrow> subseq pt tx)
   \<and> (pt \<noteq> [] \<longrightarrow> (0 < fuzzyMatch tx pt \<longleftrightarrow> subseq pt tx))
   \<and> (\<forall>r \<in> set (searchClasses idx query m).
         subseq (toLowerCase query) (toLowerCase (name r)))"
  using fuzzyMatch_flags [of tx pt] consumed_iff_subseq [of tx pt]
    fuzzyMatch_pos_iff [of pt tx] searchClasses_subseq [of _ idx query m]
  by blast

theorem C2_fuzzy_tier_witness:
  "''btn-pr'' \<noteq> []
   \<and> fuzzyMatch ''button-primary'' ''btn-pr'' = 24
   \<and> subseq ''btn-pr'' ''button-primary''
   \<and> exampleClass ''/a.css'' ''btn-primary'' \<in> set (searchClasses exampleIndex ''bPr'' 50)
   \<and> subseq (toLowerCase ''bPr'') (toLowerCase (name (exampleClass ''/a.css'' ''btn-primary'')))"
proof -
  have h: "''btn-pr'' \<noteq> []" by simp
  have v: "fuzzyMatch ''button-primary'' ''btn-pr'' = 24" by code_simp
  have mem: "exampleClass ''/a.css'' ''btn-primary'' \<in> set (searchClasses exampleIndex ''bPr'' 50)"
    by code_simp
  from C2_fuzzy_tier [of "''button-primary''" "''btn-pr''" exampleIndex "''bPr''" 50] h v mem
  show ?thesis by simp
qed

lemma searchClasses_slice:
  "searchClasses idx query K = slice0 (searchClasses idx query (int (length idx))) K"
proof -
  have len: "length (sortByScore (searchResults idx q)) \<le> length idx" for q
    by (simp add: length_sortByScore searchResults_filter getAllClasses_def
          order_trans [OF length_filter_le])
  show ?thesis
  proof (cases "query = []")
    case True
    then show ?thesis
      by (simp add: searchClasses_def getAllClasses_def slice0_all)
  next
    case False
    show ?thesis
      using len [of "toLowerCase query"]
      by (simp add: searchClasses_results [OF False] slice0_all slice0_map)
  qed
qed

lemma length_searchClasses_le:
  "0 \<le> K \<Longrightarrow> int (length (searchClasses idx query K)) \<le> K"
  by (subst searchClasses_slice) (rule length_slice0_le)

lemma map_fst_searchResults:
  "map fst (searchResults idx q)
     = filter (\<lambda>c. 0 < calculateMatchScore (name c) q) (getAllClasses idx)"
  by (simp add: searchResults_filter comp_def)

lemma searchClasses_full:
  assumes "query \<noteq> []"
  shows "searchClasses idx query (int (length idx))
           = map fst (sortByScore (searchResults idx (toLowerCase query)))"
proof -
  have "length (sortByScore (searchResults idx (toLowerCase query))) \<le> length idx"
    by (simp add: length_sortByScore searchResults_filter getAllClasses_def
          order_trans [OF length_filter_le])
  then show ?thesis
    by (simp add: searchClasses_results [OF assms] slice0_all)
qed

lemma searchClasses_stable:
  assumes "query \<noteq> []"
  shows "filter (\<lambda>c. calculateMatchScore (name c) (toLowerCase query) = s)
           (searchClasses idx query (int (length idx)))
         = filter (\<lambda>c. calculateMatchScore (name c) (toLowerCase query) = s)
             (filter (\<lambda>c. 0 < calculateMatchScore (name c) (toLowerCase query))
                (getAllClasses idx))"
proof -
  let ?q = "toLowerCase query"
  let ?R = "searchResults idx ?q"
  let ?sc = "\<lambda>c. calculateMatchScore (name c) ?q"
  have "filter (\<lambda>c. ?sc c = s) (map fst (sortByScore ?R))
          = map fst (filter (\<lambda>r. ?sc (fst r) = s) (sortByScore ?R))"
    by (simp add: filter_map comp_def)
  also have "filter (\<lambda>r. ?sc (fst r) = s) (sortByScore ?R)
          = filter (\<lambda>r. - snd r = - s) (sortByScore ?R)"
    by (rule filter_cong) (auto simp: set_sortByScore dest: snd_searchResults)
  also have "\<dots> = filter (\<lambda>r. - snd r = - s) ?R"
    unfolding sortByScore_def by (rule sort_key_stable)
  also have "\<dots> = filter (\<lambda>r. ?sc (fst r) = s) ?R"
    by (rule filter_cong) (auto dest: snd_searchResults)
  also have "map fst \<dots> = filter (\<lambda>c. ?sc c = s) (map fst ?R)"
    by (simp add: filter_map comp_def)
  finally show ?thesis
    by (simp add: searchClasses_full [OF assms] map_fst_searchResults)
qed

lemma slice0_nonneg: "0 \<le> n \<Longrightarrow> slice0 xs n = take (nat n) xs"
  by (simp add: slice0_def)

text \<open>
  Claim C1. For a non-empty query, a class name is scored by the first tier that applies,
  both sides lowercased: 100 when the name equals the query, 80 when the query is a prefix
  of the name, 60 when it is a substring, and otherwise the fuzzy score, which is
  \<open>min (total * 2) 40\<close> of the subsequence scan when the query is a subsequence of the name
  and 0 when it is not. The full ranking of an index holds exactly the records with a
  positive score, each once, in descending order of score, records of equal score in the
  order of the index. A search with limit \<open>m\<close> returns \<open>slice(0, m)\<close> of the full ranking:
  its first \<open>m\<close> records for \<open>m \<ge> 0\<close>, and all of it as soon as the matches fit within
  the limit. The query \<open>primary\<close> on the index of \<open>xyz\<close>, \<open>btn-primary\<close> and \<open>primary\<close>
  returns \<open>primary\<close>, then \<open>btn-primary\<close>, also with limit 2, and \<open>primary\<close> alone with
  limit 1; \<open>bPr\<close> matches \<open>btn-primary\<close> in the fuzzy tier with score 8.
\<close>

theorem C1_search_ranking:
  assumes "query \<noteq> []"
  shows "calculateMatchScore n (toLowerCase query) =
           (if toLowerCase n = toLowerCase query then 100
            else if prefix (toLowerCase query) (toLowerCase n) then 80
            else if sublist (toLowerCase query) (toLowerCase n) then 60
            else if subseq (toLowerCase query) (toLowerCase n)
            then min (runningTotal (matchFlags (toLowerCase n) (toLowerCase query)) * 2) 40
            else 0)
       \<and> searchClasses idx query m = slice0 (searchClasses idx query (int (length idx))) m
       \<and> (0 \<le> m \<longrightarrow>
            searchClasses idx query m = take (nat m) (searchClasses idx query (int (length idx))))
       \<and> (int (length (filter (\<lambda>c. 0 < calculateMatchScore (name c) (toLowerCase query))
                  (getAllClasses idx))) \<le> m \<longrightarrow>
            searchClasses idx query m = searchClasses idx query (int (length idx)))
       \<and> filter (\<lambda>c. calculateMatchScore (name c) (toLowerCase query) = s)
            (searchClasses idx query (int (length idx)))
           = filter (\<lambda>c. calculateMatchScore (name c) (toLowerCase query) = s)
               (filter (\<lambda>c. 0 < calculateMatchScore (name c) (toLowerCase query))
                  (getAllClasses idx))
       \<and> set (searchClasses idx query (int (length idx)))
           = {c \<in> set (getAllClasses idx).
                0 < calculateMatchScore (name c) (toLowerCase query)}
       \<and> length (searchClasses idx query (int (length idx)))
           = length (filter (\<lambda>c. 0 < calculateMatchScore (name c) (toLowerCase query))
               (getAllClasses idx))
       \<and> sorted_wrt (\<lambda>a b. calculateMatchScore (name b) (toLowerCase query)
                              \<le> calculateMatchScore (name a) (toLowerCase query))
            (searchClasses idx query (int (length idx)))
       \<and> set (searchClasses idx query m)
           \<subseteq> {c \<in> set (getAllClasses idx).
                0 < calculateMatchScore (name c) (toLowerCase query)}
       \<and> sorted_wrt (\<lambda>a b. calculateMatchScore (name b) (toLowerCase query)
                              \<le> calculateMatchScore (name a) (toLowerCase query))
            (searchClasses idx query m)
       \<and> map name (searchClasses exampleIndex ''primary'' 50) = [''primary'', ''btn-primary'']
       \<and> map name (searchClasses exampleIndex ''primary'' 2) = [''primary'', ''btn-primary'']
       \<and> map name (searchClasses exampleIndex ''primary'' 1) = [''primary'']
       \<and> map name (searchClasses exampleIndex ''bPr'' 50) = [''btn-primary'']
       \<and> calculateMatchScore ''btn-primary'' (toLowerCase ''bPr'') = 8
       \<and> map name (searchClasses exampleIndex ''pim'' 50) = [''btn-primary'', ''primary'']"
proof -
  let ?q = "toLowerCase query"
  let ?F = "searchClasses idx query (int (length idx))"
  let ?S = "filter (\<lambda>c. 0 < calculateMatchScore (name c) ?q) (getAllClasses idx)"
  have ex1: "map name (searchClasses exampleIndex ''primary'' 50) = [''primary'', ''btn-primary'']"
    by code_simp
  have ex2: "map name (searchClasses exampleIndex ''primary'' 2) = [''primary'', ''btn-primary'']"
    by code_simp
  have ex3: "map name (searchClasses exampleIndex ''primary'' 1) = [''primary'']"
    by code_simp
  have ex4: "map name (searchClasses exampleIndex ''bPr'' 50) = [''btn-primary'']"
    by code_simp
  have ex5: "calculateMatchScore ''btn-primary'' (toLowerCase ''bPr'') = 8"
    by code_simp
  have ex6: "map name (searchClasses exampleIndex ''pim'' 50) = [''btn-primary'', ''primary'']"
    by code_simp
  have tiers: "calculateMatchScore n ?q =
           (if toLowerCase n = ?q then 100
            else if prefix ?q (toLowerCase n) then 80
            else if sublist ?q (toLowerCase n) then 60
            else if subseq ?q (toLowerCase n)
            then min (runningTotal (matchFlags (toLowerCase n) ?q) * 2) 40
            else 0)"
    by (simp add: calculateMatchScore_tiers fuzzyMatch_flags consumed_iff_subseq)
  have sl: "searchClasses idx query m = slice0 ?F m"
    by (rule searchClasses_slice)
  have tk: "searchClasses idx query m = take (nat m) ?F" if "0 \<le> m"
    using that by (subst searchClasses_slice) (rule slice0_nonneg)
  have len: "length ?F = length ?S"
    using length_searchClasses_all [OF assms, of idx "int (length idx)"] by simp
  have fit: "searchClasses idx query m = ?F" if "int (length ?S) \<le> m"
    using that len by (subst searchClasses_slice) (simp add: slice0_all)
  have st: "filter (\<lambda>c. calculateMatchScore (name c) ?q = s) ?F
              = filter (\<lambda>c. calculateMatchScore (name c) ?q = s) ?S"
    by (rule searchClasses_stable [OF assms])
  have se: "set ?F = {c \<in> set (getAllClasses idx). 0 < calculateMatchScore (name c) ?q}"
    using searchClasses_all [OF assms, of idx "int (length idx)"] by simp
  note so = searchClasses_sorted [OF assms, of idx "int (length idx)"]
  note sub = searchClasses_subset [OF assms, of idx m]
  note som = searchClasses_sorted [OF assms, of idx m]
  from tiers sl tk fit st se len so sub som ex1 ex2 ex3 ex4 ex5 ex6
  show ?thesis by (intro conjI impI)
qed

theorem C1_search_ranking_witness:
  "''bPr'' \<noteq> []
   \<and> calculateMatchScore ''btn-primary'' (toLowerCase ''bPr'') = 8
   \<and> subseq (toLowerCase ''bPr'') (toLowerCase ''btn-primary'')
   \<and> min (runningTotal (matchFlags (toLowerCase ''btn-primary'') (toLowerCase ''bPr'')) * 2) 40 = 8
   \<and> (0::int) \<le> 1
   \<and> int (length (filter (\<lambda>c. 0 < calculateMatchScore (name c) (toLowerCase ''bPr''))
              (getAllClasses exampleIndex))) \<le> 1
   \<and> searchClasses exampleIndex ''bPr'' 1
       = take (nat 1) (searchClasses exampleIndex ''bPr'' (int (length exampleIndex)))
   \<and> searchClasses exampleIndex ''bPr'' 1
       = searchClasses exampleIndex ''bPr'' (int (length exampleIndex))
   \<and> set (searchClasses exampleIndex ''bPr'' (int (length exampleIndex)))
       = {c \<in> set (getAllClasses exampleIndex).
            0 < calculateMatchScore (name c) (toLowerCase ''bPr'')}
   \<and> length (searchClasses exampleIndex ''bPr'' (int (length exampleIndex))) = 1"
proof -
  have h: "''bPr'' \<noteq> []" by simp
  have m: "(0::int) \<le> 1" by simp
  have f: "int (length (filter (\<lambda>c. 0 < calculateMatchScore (name c) (toLowerCase ''bPr''))
              (getAllClasses exampleIndex))) \<le> 1"
    by code_simp
  have n: "length (filter (\<lambda>c. 0 < calculateMatchScore (name c) (toLowerCase ''bPr''))
              (getAllClasses exampleIndex)) = 1"
    by code_simp
  have t: "toLowerCase ''btn-primary'' \<noteq> toLowerCase ''bPr''"
    "\<not> prefix (toLowerCase ''bPr'') (toLowerCase ''btn-primary'')"
    "\<not> sublist (toLowerCase ''bPr'') (toLowerCase ''btn-primary'')"
    "subseq (toLowerCase ''bPr'') (toLowerCase ''btn-primary'')"
    by code_simp+
  have r: "min (runningTotal (matchFlags (toLowerCase ''btn-primary'') (toLowerCase ''bPr'')) * 2) 40 = 8"
    by code_simp
  note inst = C1_search_ranking [OF h, where n = "''btn-primary''" and idx = exampleIndex
      and m = 1 and s = 8]
  from inst have "calculateMatchScore ''btn-primary'' (toLowerCase ''bPr'') =
           (if toLowerCase ''btn-primary'' = toLowerCase ''bPr'' then 100
            else if prefix (toLowerCase ''bPr'') (toLowerCase ''btn-primary'') then 80
            else if sublist (toLowerCase ''bPr'') (toLowerCase ''btn-primary'') then 60
            else if subseq (toLowerCase ''bPr'') (toLowerCase ''btn-primary'')
            then min (runningTotal (matchFlags (toLowerCase ''btn-primary'') (toLowerCase ''bPr'')) * 2) 40
            else 0)"
    by (rule conjunct1)
  also have "\<dots> = 8"
    by (simp only: t r if_True if_False)
  finally have sc: "calculateMatchScore ''btn-primary'' (toLowerCase ''bPr'') = 8" .
  from inst m have r1: "searchClasses exampleIndex ''bPr'' 1
       = take (nat 1) (searchClasses exampleIndex ''bPr'' (int (length exampleIndex)))"
    by blast
  from inst f have r2: "searchClasses exampleIndex ''bPr'' 1
       = searchClasses exampleIndex ''bPr'' (int (length exampleIndex))"
    by blast
  from inst have r3: "set (searchClasses exampleIndex ''bPr'' (int (length exampleIndex)))
       = {c \<in> set (getAllClasses exampleIndex).
            0 < calculateMatchScore (name c) (toLowerCase ''bPr'')}"
    by blast
  from inst have "length (searchClasses exampleIndex ''bPr'' (int (length exampleIndex)))
       = length (filter (\<lambda>c. 0 < calculateMatchScore (name c) (toLowerCase ''bPr''))
              (getAllClasses exampleIndex))"
    by blast
  then have r4: "length (searchClasses exampleIndex ''bPr'' (int (length exampleIndex))) = 1"
    by (simp only: n)
  note rest = r1 r2 r3 r4
  from h sc t(4) r m f rest show ?thesis by (intro conjI)
qed

text \<open>
  Claim C6, as amended. A search with limit 0 returns nothing and a search with a positive
  limit \<open>K\<close> returns at most \<open>K\<close> records. A negative limit \<open>K\<close> is passed to \<open>slice\<close>
  as it is and drops the last \<open>-K\<close> records of the full ranking instead of all of them.
\<close>

theorem C6_search_limit:
  "searchClasses idx query 0 = []
   \<and> (0 < K \<longrightarrow> int (length (searchClasses idx query K)) \<le> K)
   \<and> (K < 0 \<longrightarrow>
        searchClasses idx query K =
          take (length (searchClasses idx query (int (length idx))) - nat (- K))
            (searchClasses idx query (int (length idx))))"
proof -
  have "searchClasses idx query 0 = []"
    using length_searchClasses_le [of 0 idx query] by simp
  moreover have "int (length (searchClasses idx query K)) \<le> K" if "0 < K"
    using that by (intro length_searchClasses_le) simp
  moreover have "searchClasses idx query K =
          take (length (searchClasses idx query (int (length idx))) - nat (- K))
            (searchClasses idx query (int (length idx)))" if "K < 0"
  proof -
    have "nat (int (length xs) + K) = length xs - nat (- K)" for xs :: "CSSClass list"
      using that by linarith
    then show ?thesis
      using that by (subst searchClasses_slice) (simp add: slice0_def)
  qed
  ultimately show ?thesis by blast
qed

theorem C6_search_limit_witness:
  "(0::int) < 1 \<and> int (length (searchClasses exampleIndex ''primary'' 1)) \<le> 1
   \<and> (-1::int) < 0
   \<and> map name (searchClasses exampleIndex ''primary'' (-1)) = [''primary'']
   \<and> map name (take (length (searchClasses exampleIndex ''primary'' (int (length exampleIndex))) - nat (- (-1)))
            (searchClasses exampleIndex ''primary'' (int (length exampleIndex)))) = [''primary'']"
proof -
  have v: "map name (take (length (searchClasses exampleIndex ''primary'' (int (length exampleIndex))) - nat (- (-1)))
            (searchClasses exampleIndex ''primary'' (int (length exampleIndex)))) = [''primary'']"
    by code_simp
  from C6_search_limit [of exampleIndex "''primary''" 1]
    C6_search_limit [of exampleIndex "''primary''" "-1"] v
  show ?thesis by simp
qed

text \<open>Claim C6 as stated fails for a negative limit: with limit \<open>-1\<close> the query \<open>primary\<close>
  still returns a record, and so does the empty query.\<close>

theorem C6_negative_limit_counterexample:
  "(-1::int) \<le> 0 \<and> map name (searchClasses exampleIndex ''primary'' (-1)) = [''primary'']
   \<and> map name (searchClasses exampleIndex [] (-1)) = [''xyz'', ''btn-primary'']"
  by code_simp

section \<open>Category inference\<close>

lemma truthy_absent: "map_of props k = None \<Longrightarrow> \<not> truthy props k"
  by (simp add: truthy_def)

text \<open>
  Claim C5, as amended. \<open>inferCategory\<close> checks the eight categories in a fixed order and the
  first tier that fires wins. A tier fires on a substring of the lowercased name, or on one
  of the property keys \<open>display\<close>, \<open>color\<close>, \<open>background\<close>, \<open>border\<close>, \<open>padding\<close>,
  \<open>margin\<close>, \<open>width\<close>, \<open>height\<close>, \<open>visibility\<close>, \<open>opacity\<close> carrying a non-empty value. The
  statement is for property maps without the keys of \<open>slipKeys\<close>. The name \<open>custom-thing\<close>
  contains \<open>m-\<close> and is Spacing; a name that matches no tier, such as \<open>thing\<close> with only
  \<open>z-index\<close>, is Utilities.
\<close>

theorem C5_inferCategory_tiers:
  assumes "list_all (\<lambda>k. map_of props k = None) slipKeys"
  shows "inferCategory n props =
     (if sublist ''flex'' (toLowerCase n) \<or> sublist ''grid'' (toLowerCase n)
         \<or> truthy props ''display''
      then ''Layout''
      else if sublist ''text'' (toLowerCase n) \<or> sublist ''font'' (toLowerCase n)
         \<or> truthy props ''color''
      then ''Typography''
      else if sublist ''bg'' (toLowerCase n) \<or> sublist ''background'' (toLowerCase n)
         \<or> truthy props ''background''
      then ''Background''
      else if sublist ''border'' (toLowerCase n) \<or> truthy props ''border''
      then ''Border''
      else if sublist ''p-'' (toLowerCase n) \<or> sublist ''m-'' (toLowerCase n)
         \<or> sublist ''padding'' (toLowerCase n) \<or> sublist ''margin'' (toLowerCase n)
         \<or> truthy props ''padding'' \<or> truthy props ''margin''
      then ''Spacing''
      else if sublist ''w-'' (toLowerCase n) \<or> sublist ''h-'' (toLowerCase n)
         \<or> sublist ''width'' (toLowerCase n) \<or> sublist ''height'' (toLowerCase n)
         \<or> truthy props ''width'' \<or> truthy props ''height''
      then ''Sizing''
      else if sublist ''hidden'' (toLowerCase n) \<or> sublist ''visible'' (toLowerCase n)
         \<or> truthy props ''visibility'' \<or> truthy props ''opacity''
      then ''Visibility''
      else ''Utilities'')
   \<and> inferCategory ''flex-center'' [(''display'', ''flex'')] = ''Layout''
   \<and> inferCategory ''text-lg'' [(''font-size'', ''1.5rem'')] = ''Typography''
   \<and> inferCategory ''thing'' [(''z-index'', ''10'')] = ''Utilities''
   \<and> inferCategory ''custom-thing'' [(''z-index'', ''10'')] = ''Spacing''"
proof -
  have a: "truthy props ''fontSize'' = False" "truthy props ''fontFamily'' = False"
    "truthy props ''backgroundColor'' = False" "truthy props ''borderRadius'' = False"
    using assms by (simp_all add: slipKeys_def truthy_absent)
  have e1: "inferCategory ''flex-center'' [(''display'', ''flex'')] = ''Layout''"
    by code_simp
  have e2: "inferCategory ''text-lg'' [(''font-size'', ''1.5rem'')] = ''Typography''"
    by code_simp
  have e3: "inferCategory ''thing'' [(''z-index'', ''10'')] = ''Utilities''"
    by code_simp
  have e4: "inferCategory ''custom-thing'' [(''z-index'', ''10'')] = ''Spacing''"
    by code_simp
  have "inferCategory n props = (if sublist ''flex'' (toLowerCase n) \<or> sublist ''grid'' (toLowerCase n)
         \<or> truthy props ''display''
      then ''Layout''
      else if sublist ''text'' (toLowerCase n) \<or> sublist ''font'' (toLowerCase n)
         \<or> truthy props ''color''
      then ''Typography''
      else if sublist ''bg'' (toLowerCase n) \<or> sublist ''background'' (toLowerCase n)
         \<or> truthy props ''background''
      then ''Background''
      else if sublist ''border'' (toLowerCase n) \<or> truthy props ''border''
      then ''Border''
      else if sublist ''p-'' (toLowerCase n) \<or> sublist ''m-'' (toLowerCase n)
         \<or> sublist ''padding'' (toLowerCase n) \<or> sublist ''margin'' (toLowerCase n)
         \<or> truthy props ''padding'' \<or> truthy props ''margin''
      then ''Spacing''
      else if sublist ''w-'' (toLowerCase n) \<or> sublist ''h-'' (toLowerCase n)
         \<or> sublist ''width'' (toLowerCase n) \<or> sublist ''height'' (toLowerCase n)
         \<or> truthy props ''width'' \<or> truthy props ''height''
      then ''Sizing''
      else if sublist ''hidden'' (toLowerCase n) \<or> sublist ''visible'' (toLowerCase n)
         \<or> truthy props ''visibility'' \<or> truthy props ''opacity''
      then ''Visibility''
      else ''Utilities'')"
    unfolding inferCategory_def Let_def includes_str_sublist
    by (simp only: a simp_thms)
  with e1 e2 e3 e4 show ?thesis by (intro conjI)
qed

theorem C5_inferCategory_tiers_witness:
  "list_all (\<lambda>k. map_of [(''color'', ''red'')] k = None) slipKeys
   \<and> inferCategory ''big'' [(''color'', ''red'')] = ''Typography''"
proof -
  have h: "list_all (\<lambda>k. map_of [(''color'', ''red'')] k = None) slipKeys"
    by (simp add: slipKeys_def)
  have n: "\<not> sublist ''flex'' (toLowerCase ''big'')" "\<not> sublist ''grid'' (toLowerCase ''big'')"
    "\<not> truthy [(''color'', ''red'')] ''display''" "truthy [(''color'', ''red'')] ''color''"
    by code_simp+
  from C5_inferCategory_tiers [OF h, of "''big''"]
  have "inferCategory ''big'' [(''color'', ''red'')] = ''Typography''"
    by (simp only: n simp_thms if_True if_False)
  with h show ?thesis by simp
qed

text \<open>Claim C5 as stated fails on its own example: \<open>custom-thing\<close> with only \<open>z-index\<close>
  is not Utilities.\<close>

theorem C5_custom_thing_counterexample:
  "inferCategory ''custom-thing'' [(''z-index'', ''10'')] \<noteq> ''Utilities''"
  by code_simp

section \<open>Parsing\<close>



lemma classMatches_valid:
  "tok \<in> set (classMatches s) \<Longrightarrow> startsWith tok ''.'' \<and> isValidClassName tok"
proof (induction s rule: classMatches.induct)
  case 1
  then show ?case by simp
next
  case (2 c cs)
  show ?case
  proof (cases "c = CHR ''.''")
    case False
    with 2 show ?thesis by simp
  next
    case dot: True
    show ?thesis
    proof (cases cs)
      case Nil
      with 2 dot show ?thesis by simp
    next
      case (Cons d ds)
      show ?thesis
      proof (cases "isClassStart d")
        case False
        with 2 dot Cons show ?thesis by simp
      next
        case True
        with "2.prems" dot Cons
        have "tok = CHR ''.'' # d # takeWhile isClassChar ds
              \<or> tok \<in> set (classMatches (dropWhile isClassChar ds))"
          by simp
        then show ?thesis
        proof
          assume "tok = CHR ''.'' # d # takeWhile isClassChar ds"
          with True show ?thesis
            by (auto simp: startsWith_def list_all_iff dest: set_takeWhileD)
        next
          assume "tok \<in> set (classMatches (dropWhile isClassChar ds))"
          with "2.IH"(1) [OF dot Cons True] show ?thesis .
        qed
      qed
    qed
  qed
qed

lemma parseSelector_valid:
  "tok \<in> set (parseSelector sel) \<Longrightarrow> startsWith tok ''.'' \<and> isValidClassName tok"
  by (auto simp: parseSelector_def dest: classMatches_valid)

lemma obj_set_nonempty: "obj_set ps k v \<noteq> []"
  by (induction ps k v rule: obj_set.induct) auto

lemma foldl_obj_set_nonempty:
  "ps \<noteq> [] \<Longrightarrow> foldl (\<lambda>ps (prop, val). obj_set ps prop val) ps ds \<noteq> []"
proof (induction ds arbitrary: ps)
  case Nil
  then show ?case by simp
next
  case (Cons d ds)
  have "obj_set ps (fst d) (snd d) \<noteq> []"
    by (rule obj_set_nonempty)
  then have "foldl (\<lambda>ps (prop, val). obj_set ps prop val) (obj_set ps (fst d) (snd d)) ds \<noteq> []"
    by (rule Cons.IH)
  then show ?case by (simp add: split_def)
qed

lemma walkDecls_empty_iff: "walkDecls rule = [] \<longleftrightarrow> rule_decls rule = []"
proof (cases "rule_decls rule")
  case Nil
  then show ?thesis by (simp add: walkDecls_def)
next
  case (Cons d ds)
  have "foldl (\<lambda>ps (prop, val). obj_set ps prop val) (obj_set [] (fst d) (snd d)) ds \<noteq> []"
    by (rule foldl_obj_set_nonempty) simp
  with Cons show ?thesis by (simp add: walkDecls_def split_def)
qed

lemma selectorClasses_valid:
  assumes "startsWith tok ''.'' \<and> isValidClassName tok"
  shows "selectorClasses filePath rule tok =
           (if rule_decls rule = [] then [] else [recordOf filePath rule tok])"
  using assms walkDecls_empty_iff [of rule]
  by (auto simp: selectorClasses_def recordOf_def Let_def)

lemma ruleClasses_records:
  "ruleClasses filePath rule =
     (if rule_decls rule = [] then []
      else map (recordOf filePath rule) (parseSelector (rule_selector rule)))"
proof -
  have "concat (map (selectorClasses filePath rule) toks) =
          (if rule_decls rule = [] then [] else map (recordOf filePath rule) toks)"
    if "\<forall>tok \<in> set toks. startsWith tok ''.'' \<and> isValidClassName tok" for toks
    using that by (induction toks) (simp_all add: selectorClasses_valid)
  then show ?thesis
    unfolding ruleClasses_def using parseSelector_valid by blast
qed

lemma parseCSS_classes:
  "classes (parseCSS w content filePath) =
     (case processorFor w filePath content filePath of
        Inl e \<Rightarrow> []
      | Inr rules \<Rightarrow> concat (map (ruleClasses filePath) rules))"
  by (simp add: parseCSS_def parseCSS_try_def processorFor_def extractClassesFromAST_def
        Let_def split: sum.splits)

lemma parseCSS_errors:
  "errors (parseCSS w content filePath) =
     (case processorFor w filePath content filePath of
        Inl e \<Rightarrow> [''Failed to parse '' @ filePath @ '': '' @ error_text e]
      | Inr rules \<Rightarrow> [])"
  by (simp add: parseCSS_def parseCSS_try_def processorFor_def extractClassesFromAST_def
        Let_def split: sum.splits)

lemma parseCSS_class_cases:
  assumes "c \<in> set (classes (parseCSS w content filePath))"
  shows "\<exists>rules rule tok.
    processorFor w filePath content filePath = Inr rules \<and> rule \<in> set rules \<and>
    rule_decls rule \<noteq> [] \<and> tok \<in> set (parseSelector (rule_selector rule)) \<and>
    c = recordOf filePath rule tok"
proof (cases "processorFor w filePath content filePath")
  case (Inl e)
  with assms show ?thesis by (simp add: parseCSS_classes)
next
  case (Inr rules)
  with assms obtain rule where r: "rule \<in> set rules" "c \<in> set (ruleClasses filePath rule)"
    by (auto simp: parseCSS_classes)
  from r(2) have "rule_decls rule \<noteq> []"
    and "c \<in> recordOf filePath rule ` set (parseSelector (rule_selector rule))"
    by (simp_all add: ruleClasses_records split: if_splits)
  with Inr r(1) show ?thesis by blast
qed



lemma classMatches_skip: "c \<noteq> CHR ''.'' \<Longrightarrow> classMatches (c # cs) = classMatches cs"
  by simp











section \<open>The index\<close>

lemma map_of_Map_set: "map_of (Map_set idx k v) = (map_of idx)(k \<mapsto> v)"
  by (induction idx k v rule: Map_set.induct) (auto simp: fun_eq_iff)

lemma keys_Map_set:
  "map fst (Map_set idx k v) = (if k \<in> set (map fst idx) then map fst idx else map fst idx @ [k])"
  by (induction idx k v rule: Map_set.induct) auto

lemma distinct_Map_set: "distinct (map fst idx) \<Longrightarrow> distinct (map fst (Map_set idx k v))"
  by (simp add: keys_Map_set)

lemma set_Map_set: "set (Map_set idx k v) \<subseteq> insert (k, v) (set idx)"
  by (induction idx k v rule: Map_set.induct) auto

lemma setAll_snoc: "setAll idx (cs @ [c]) = Map_set (setAll idx cs) (name c) c"
  by (simp add: setAll_def)

lemma distinct_setAll: "distinct (map fst idx) \<Longrightarrow> distinct (map fst (setAll idx cs))"
  by (induction cs rule: rev_induct) (simp_all add: setAll_snoc distinct_Map_set setAll_def)

lemma set_setAll: "set (setAll idx cs) \<subseteq> set idx \<union> (\<lambda>c. (name c, c)) ` set cs"
proof (induction cs rule: rev_induct)
  case Nil
  show ?case by (simp add: setAll_def)
next
  case (snoc c cs)
  from set_Map_set [of "setAll idx cs" "name c" c] snoc show ?case
    by (auto simp: setAll_snoc)
qed

lemma map_of_setAll:
  "map_of (setAll idx cs) n =
     (if filter (\<lambda>c. name c = n) cs = [] then map_of idx n
      else Some (last (filter (\<lambda>c. name c = n) cs)))"
proof (induction cs rule: rev_induct)
  case Nil
  show ?case by (simp add: setAll_def)
next
  case (snoc c cs)
  then show ?case
    by (simp add: setAll_snoc map_of_Map_set)
qed

lemma foldl_Map_delete:
  "foldl Map_delete idx ks = filter (\<lambda>(k, v). k \<notin> set ks) idx"
proof (induction ks arbitrary: idx)
  case Nil
  show ?case by simp
next
  case (Cons k ks)
  have "foldl Map_delete idx (k # ks) = foldl Map_delete (Map_delete idx k) ks"
    by simp
  also have "\<dots> = filter (\<lambda>(k', v). k' \<notin> set ks) (Map_delete idx k)"
    by (rule Cons.IH)
  also have "\<dots> = filter (\<lambda>(k', v). k' \<notin> set (k # ks)) idx"
    unfolding Map_delete_def filter_filter
    by (rule filter_cong) (auto simp: split_def)
  finally show ?case .
qed

lemma removeClassesFromFile_subset: "set (removeClassesFromFile idx p) \<subseteq> set idx"
  by (auto simp: removeClassesFromFile_def Let_def foldl_Map_delete)

lemma removeClassesFromFile_gone:
  assumes "(k, c) \<in> set (removeClassesFromFile idx p)"
  shows "sourceFile c \<noteq> p"
proof
  assume p: "sourceFile c = p"
  let ?ks = "map fst (filter (\<lambda>(className, cssClass). sourceFile cssClass = p) idx)"
  from assms have in_idx: "(k, c) \<in> set idx" and out: "k \<notin> set ?ks"
    by (simp_all add: removeClassesFromFile_def Let_def foldl_Map_delete)
  from in_idx p have "(k, c) \<in> set (filter (\<lambda>(className, cssClass). sourceFile cssClass = p) idx)"
    by simp
  then have "fst (k, c) \<in> set ?ks"
    unfolding set_map by (rule imageI)
  with out show False by simp
qed

lemma removeClassesFromFile_filter:
  assumes "distinct (map fst idx)"
  shows "removeClassesFromFile idx p = filter (\<lambda>(k, c). sourceFile c \<noteq> p) idx"
proof -
  have "(k \<notin> fst ` {x \<in> set idx. sourceFile (snd x) = p}) = (sourceFile c \<noteq> p)"
    if "(k, c) \<in> set idx" for k c
  proof -
    have same: "c' = c" if "(k, c') \<in> set idx" for c'
      using assms that \<open>(k, c) \<in> set idx\<close> by (rule eq_key_imp_eq_value)
    show ?thesis
    proof
      assume "k \<notin> fst ` {x \<in> set idx. sourceFile (snd x) = p}"
      with that show "sourceFile c \<noteq> p" by (metis (mono_tags, lifting) fst_conv imageI mem_Collect_eq snd_conv)
    next
      assume ne: "sourceFile c \<noteq> p"
      show "k \<notin> fst ` {x \<in> set idx. sourceFile (snd x) = p}"
      proof
        assume "k \<in> fst ` {x \<in> set idx. sourceFile (snd x) = p}"
        then obtain c' where "(k, c') \<in> set idx" and "sourceFile c' = p" by auto
        with same ne show False by blast
      qed
    qed
  qed
  then show ?thesis
    unfolding removeClassesFromFile_def Let_def foldl_Map_delete
    by (intro filter_cong refl) (auto simp: split_def)
qed

lemma distinct_removeClassesFromFile:
  "distinct (map fst idx) \<Longrightarrow> distinct (map fst (removeClassesFromFile idx p))"
  by (simp add: removeClassesFromFile_def Let_def foldl_Map_delete distinct_map_filter)

lemma indexFile_read:
  "readFileSync w p = Inr content \<Longrightarrow>
   indexFile w idx p = Inr (setAll (removeClassesFromFile idx p) (classes (parseCSS w content p)))"
  by (simp add: indexFile_def indexFile_try_def setAll_def Let_def)

lemma indexFile_unreadable:
  "readFileSync w p = Inl e \<Longrightarrow> indexFile w idx p = Inr idx"
  by (simp add: indexFile_def indexFile_try_def)

lemma indexFile_returns: "\<exists>idx'. indexFile w idx p = Inr idx'"
  by (cases "readFileSync w p") (simp_all add: indexFile_read indexFile_unreadable)

lemma indexFile_entries:
  assumes "indexFile w idx p = Inr idx'" and "(k, c) \<in> set idx'"
  shows "(k, c) \<in> set idx
         \<or> (\<exists>content. readFileSync w p = Inr content
              \<and> c \<in> set (classes (parseCSS w content p)) \<and> k = name c)"
proof (cases "readFileSync w p")
  case (Inl e)
  with assms show ?thesis by (simp add: indexFile_unreadable)
next
  case (Inr content)
  with assms have "(k, c) \<in> set (setAll (removeClassesFromFile idx p)
      (classes (parseCSS w content p)))"
    by (simp add: indexFile_read)
  with set_setAll [of "removeClassesFromFile idx p" "classes (parseCSS w content p)"]
  have "(k, c) \<in> set (removeClassesFromFile idx p)
        \<or> (k, c) \<in> (\<lambda>c. (name c, c)) ` set (classes (parseCSS w content p))"
    by blast
  then show ?thesis
  proof
    assume "(k, c) \<in> set (removeClassesFromFile idx p)"
    with removeClassesFromFile_subset [of idx p] show ?thesis by blast
  next
    assume "(k, c) \<in> (\<lambda>c. (name c, c)) ` set (classes (parseCSS w content p))"
    with Inr show ?thesis by auto
  qed
qed

lemma indexFile_distinct:
  assumes "distinct (map fst idx)" and "indexFile w idx p = Inr idx'"
  shows "distinct (map fst idx')"
proof (cases "readFileSync w p")
  case (Inl e)
  with assms show ?thesis by (simp add: indexFile_unreadable)
next
  case (Inr content)
  with assms show ?thesis
    by (auto simp: indexFile_read distinct_setAll distinct_removeClassesFromFile)
qed

section \<open>Records of a rule\<close>

lemma recordOf_simps:
  "name (recordOf filePath rule tok) = drop 1 tok"
  "properties (recordOf filePath rule tok) = walkDecls rule"
  "selector (recordOf filePath rule tok) = rule_selector rule"
  "sourceFile (recordOf filePath rule tok) = filePath"
  "line (recordOf filePath rule tok) = or_zero (rule_line rule)"
  "column (recordOf filePath rule tok) = or_zero (rule_column rule)"
  by (simp_all add: recordOf_def)

lemma parseCSS_sourceFile:
  "c \<in> set (classes (parseCSS w content filePath)) \<Longrightarrow> sourceFile c = filePath"
  using parseCSS_class_cases [of c w content filePath] by (auto simp: recordOf_simps)

lemma parseCSS_properties:
  "c \<in> set (classes (parseCSS w content filePath)) \<Longrightarrow> properties c \<noteq> []"
  using parseCSS_class_cases [of c w content filePath]
  by (auto simp: recordOf_simps walkDecls_empty_iff)

lemma nonEmptyProps_iff: "nonEmptyProps idx \<longleftrightarrow> (\<forall>(k, c) \<in> set idx. properties c \<noteq> [])"
  by (simp add: nonEmptyProps_def list_all_iff)

lemma indexFile_nonEmptyProps:
  assumes "nonEmptyProps idx" and "indexFile w idx p = Inr idx'"
  shows "nonEmptyProps idx'"
proof -
  have "properties c \<noteq> []" if "(k, c) \<in> set idx'" for k c
  proof -
    from indexFile_entries [OF assms(2) that] have "(k, c) \<in> set idx
         \<or> (\<exists>content. c \<in> set (classes (parseCSS w content p)))"
      by blast
    then show ?thesis
      using assms(1) parseCSS_properties by (auto simp: nonEmptyProps_iff)
  qed
  then show ?thesis by (auto simp: nonEmptyProps_iff)
qed

lemma indexWorkspace_nonEmptyProps:
  "nonEmptyProps idx \<Longrightarrow> \<exists>idx'. indexWorkspace w idx files = Inr idx' \<and> nonEmptyProps idx'"
proof (induction files arbitrary: idx)
  case Nil
  then show ?case by simp
next
  case (Cons f fs)
  from indexFile_returns obtain idx1 where i: "indexFile w idx f = Inr idx1" by blast
  with Cons.prems have "nonEmptyProps idx1" by (rule indexFile_nonEmptyProps)
  from Cons.IH [OF this] i show ?case by simp
qed

lemma removeClassesFromFile_nonEmptyProps:
  "nonEmptyProps idx \<Longrightarrow> nonEmptyProps (removeClassesFromFile idx p)"
  using removeClassesFromFile_subset [of idx p] by (auto simp: nonEmptyProps_iff)

text \<open>
  Claim C7. A rule without declarations produces no record, whatever its selector. Every
  record \<open>parseCSS\<close> returns has a non-empty property map. An index in which every record has
  a non-empty property map keeps that property under \<open>indexFile\<close>,
  \<open>removeClassesFromFile\<close> and \<open>indexWorkspace\<close>, each of which returns; \<open>rescanFiles\<close>
  and \<open>clearCache\<close> establish it from any index.
\<close>

theorem C7_nonempty_properties:
  "(rule_decls rule = [] \<longrightarrow> ruleClasses filePath rule = [])
   \<and> list_all (\<lambda>c. properties c \<noteq> []) (classes (parseCSS w content filePath))
   \<and> (nonEmptyProps idx \<longrightarrow>
         (\<exists>idx'. indexFile w idx p = Inr idx' \<and> nonEmptyProps idx')
       \<and> nonEmptyProps (removeClassesFromFile idx p)
       \<and> (\<exists>idx'. indexWorkspace w idx files = Inr idx' \<and> nonEmptyProps idx'))
   \<and> (\<exists>idx'. rescanFiles w idx files = Inr idx' \<and> nonEmptyProps idx')
   \<and> nonEmptyProps (clearCache idx)"
proof -
  have a: "rule_decls rule = [] \<longrightarrow> ruleClasses filePath rule = []"
    by (simp add: ruleClasses_records)
  have b: "list_all (\<lambda>c. properties c \<noteq> []) (classes (parseCSS w content filePath))"
    by (simp add: list_all_iff parseCSS_properties)
  have e: "nonEmptyProps []"
    by (simp add: nonEmptyProps_def)
  have c: "\<exists>idx'. indexFile w idx p = Inr idx' \<and> nonEmptyProps idx'" if "nonEmptyProps idx"
    using indexFile_returns [of w idx p] indexFile_nonEmptyProps [OF that] by blast
  have d: "\<exists>idx'. rescanFiles w idx files = Inr idx' \<and> nonEmptyProps idx'"
    unfolding rescanFiles_def by (rule indexWorkspace_nonEmptyProps [OF e])
  from a b c d e show ?thesis
    using removeClassesFromFile_nonEmptyProps [of idx p]
      indexWorkspace_nonEmptyProps [of idx w files]
    by (simp add: clearCache_def)
qed

theorem C7_nonempty_properties_witness:
  "rule_decls emptyRule = [] \<and> ruleClasses ''/a.css'' emptyRule = []
   \<and> nonEmptyProps exampleIndex
   \<and> (\<exists>idx'. indexFile exampleWorld exampleIndex ''/a.css'' = Inr idx' \<and> nonEmptyProps idx')
   \<and> nonEmptyProps (removeClassesFromFile exampleIndex ''/a.css'')
   \<and> (\<exists>idx'. indexWorkspace exampleWorld exampleIndex [''/a.css'', ''/b.css''] = Inr idx'
          \<and> nonEmptyProps idx')"
proof -
  have h1: "rule_decls emptyRule = []" by (simp add: emptyRule_def)
  have h2: "nonEmptyProps exampleIndex" by code_simp
  from C7_nonempty_properties [where rule = emptyRule and filePath = "''/a.css''"
      and w = exampleWorld and idx = exampleIndex and p = "''/a.css''"
      and files = "[''/a.css'', ''/b.css'']"] h1 h2
  show ?thesis by blast
qed

lemma ruleClasses_position:
  assumes "c \<in> set (ruleClasses filePath rule)"
  shows "line c = (case rule_line rule of None \<Rightarrow> 0 | Some l \<Rightarrow> l)
       \<and> column c = (case rule_column rule of None \<Rightarrow> 0 | Some n \<Rightarrow> n)"
  using assms
  by (auto simp: ruleClasses_records recordOf_simps or_zero_def split: if_splits)

lemma parseCSS_rule_cases:
  assumes "c \<in> set (classes (parseCSS w content filePath))"
  shows "\<exists>rules r. processorFor w filePath content filePath = Inr rules \<and> r \<in> set rules
           \<and> c \<in> set (ruleClasses filePath r)"
proof (cases "processorFor w filePath content filePath")
  case (Inl e)
  with assms show ?thesis by (simp add: parseCSS_classes)
next
  case (Inr rules)
  with assms show ?thesis by (auto simp: parseCSS_classes)
qed

lemma ruleClasses_positioned:
  assumes "c \<in> set (ruleClasses filePath rule)" and "positioned rule"
  shows "1 \<le> line c \<and> 1 \<le> column c"
  using assms ruleClasses_position [OF assms(1)]
  by (auto simp: positioned_def split: option.splits)

lemma parserContract_processorFor:
  assumes "parserContract w" and "processorFor w p content p' = Inr rules" and "r \<in> set rules"
  shows "positioned r"
proof -
  from assms(2) have "postcss_parse w content p' = Inr rules
      \<or> postcssScss_parse w content p' = Inr rules"
    by (simp add: processorFor_def split: if_splits)
  with assms(1) have "list_all positioned rules"
    unfolding parserContract_def by blast
  with assms(3) show ?thesis by (simp add: list_all_iff)
qed

lemma parseCSS_oneBased:
  assumes "parserContract w" and "c \<in> set (classes (parseCSS w content filePath))"
  shows "1 \<le> line c \<and> 1 \<le> column c"
proof -
  from parseCSS_rule_cases [OF assms(2)] obtain rules r where
    "processorFor w filePath content filePath = Inr rules" "r \<in> set rules"
    "c \<in> set (ruleClasses filePath r)"
    by blast
  with parserContract_processorFor [OF assms(1)] show ?thesis
    by (intro ruleClasses_positioned)
qed

lemma oneBased_iff: "oneBased idx \<longleftrightarrow> (\<forall>(k, c) \<in> set idx. 1 \<le> line c \<and> 1 \<le> column c)"
  by (simp add: oneBased_def list_all_iff)

lemma indexFile_new_oneBased:
  assumes "parserContract w" and "indexFile w idx p = Inr idx'"
    and "(k, c) \<in> set idx'" and "(k, c) \<notin> set idx"
  shows "1 \<le> line c \<and> 1 \<le> column c"
proof -
  from indexFile_entries [OF assms(2,3)] assms(4) obtain content where
    "c \<in> set (classes (parseCSS w content p))"
    by blast
  with assms(1) show ?thesis by (rule parseCSS_oneBased)
qed

lemma indexFile_oneBased:
  assumes "parserContract w" and "oneBased idx" and "indexFile w idx p = Inr idx'"
  shows "oneBased idx'"
proof -
  have "1 \<le> line c \<and> 1 \<le> column c" if "(k, c) \<in> set idx'" for k c
  proof (cases "(k, c) \<in> set idx")
    case True
    with assms(2) show ?thesis by (auto simp: oneBased_iff)
  next
    case False
    with assms(1,3) that show ?thesis by (rule indexFile_new_oneBased)
  qed
  then show ?thesis by (auto simp: oneBased_iff)
qed

lemma indexWorkspace_oneBased:
  "parserContract w \<Longrightarrow> oneBased idx \<Longrightarrow>
   \<exists>idx'. indexWorkspace w idx files = Inr idx' \<and> oneBased idx'"
proof (induction files arbitrary: idx)
  case Nil
  then show ?case by simp
next
  case (Cons f fs)
  from indexFile_returns obtain idx1 where i: "indexFile w idx f = Inr idx1" by blast
  from Cons.prems i have "oneBased idx1" by (rule indexFile_oneBased)
  from Cons.IH [OF Cons.prems(1) this] i show ?case by simp
qed

lemma removeClassesFromFile_oneBased:
  "oneBased idx \<Longrightarrow> oneBased (removeClassesFromFile idx p)"
  using removeClassesFromFile_subset [of idx p] by (auto simp: oneBased_iff)

lemma parserContract_exampleWorld: "parserContract exampleWorld"
proof -
  have "list_all positioned rules" if "exampleRules f = Inr rules" for f rules
    using that
    by (auto simp: exampleRules_def positioned_def buttonRule_def emptyRule_def helperRule_def
          split: if_splits)
  then show ?thesis
    by (simp add: parserContract_def exampleWorld_def)
qed

text \<open>
  Claim C9. With parsers that keep their contract on positions, every record \<open>parseCSS\<close>
  returns and every entry \<open>indexFile\<close> adds to the index has a line and a column of at least
  1. An index of such records stays one under \<open>indexFile\<close>, \<open>removeClassesFromFile\<close> and
  \<open>indexWorkspace\<close>, each of which returns; \<open>rescanFiles\<close> and \<open>clearCache\<close> establish the
  property from any index. The line and column of a record are those the tree reports for
  its rule; the value 0 of \<open>|| 0\<close> stands for a position the tree does not report.
\<close>

theorem C9_source_position:
  assumes "parserContract w"
  shows "(c \<in> set (classes (parseCSS w content filePath)) \<longrightarrow> 1 \<le> line c \<and> 1 \<le> column c)
       \<and> (indexFile w idx p = Inr idx' \<and> (k, c') \<in> set idx' \<and> (k, c') \<notin> set idx \<longrightarrow>
            1 \<le> line c' \<and> 1 \<le> column c')
       \<and> (oneBased idx \<longrightarrow>
             (\<exists>idx'. indexFile w idx p = Inr idx' \<and> oneBased idx')
           \<and> oneBased (removeClassesFromFile idx p)
           \<and> (\<exists>idx'. indexWorkspace w idx files = Inr idx' \<and> oneBased idx'))
       \<and> (\<exists>idx'. rescanFiles w idx files = Inr idx' \<and> oneBased idx')
       \<and> oneBased (clearCache idx)
       \<and> (r \<in> set (ruleClasses filePath rule) \<longrightarrow>
             line r = (case rule_line rule of None \<Rightarrow> 0 | Some l \<Rightarrow> l)
           \<and> column r = (case rule_column rule of None \<Rightarrow> 0 | Some n \<Rightarrow> n))"
proof -
  have e: "oneBased []" by (simp add: oneBased_def)
  have a: "c \<in> set (classes (parseCSS w content filePath)) \<longrightarrow> 1 \<le> line c \<and> 1 \<le> column c"
    using parseCSS_oneBased [OF assms] by blast
  have b: "indexFile w idx p = Inr idx' \<and> (k, c') \<in> set idx' \<and> (k, c') \<notin> set idx \<longrightarrow>
            1 \<le> line c' \<and> 1 \<le> column c'"
    using indexFile_new_oneBased [OF assms] by blast
  have c1: "\<exists>idx'. indexFile w idx p = Inr idx' \<and> oneBased idx'" if "oneBased idx"
    using indexFile_returns [of w idx p] indexFile_oneBased [OF assms that] by blast
  have d: "\<exists>idx'. rescanFiles w idx files = Inr idx' \<and> oneBased idx'"
    unfolding rescanFiles_def by (rule indexWorkspace_oneBased [OF assms e])
  have f: "r \<in> set (ruleClasses filePath rule) \<longrightarrow>
             line r = (case rule_line rule of None \<Rightarrow> 0 | Some l \<Rightarrow> l)
           \<and> column r = (case rule_column rule of None \<Rightarrow> 0 | Some n \<Rightarrow> n)"
    using ruleClasses_position [of r filePath rule] by blast
  from a b c1 d e f show ?thesis
    using removeClassesFromFile_oneBased [of idx p]
      indexWorkspace_oneBased [OF assms, of idx files]
    by (simp add: clearCache_def)
qed

theorem C9_source_position_witness:
  "parserContract exampleWorld
   \<and> indexFile exampleWorld [] ''/b.css'' = Inr [(''btn'', recordOf ''/b.css'' helperRule ''.btn'')]
   \<and> 1 \<le> line (recordOf ''/b.css'' helperRule ''.btn'')
   \<and> 1 \<le> column (recordOf ''/b.css'' helperRule ''.btn'')
   \<and> oneBased exampleIndex
   \<and> (\<exists>idx'. indexFile exampleWorld exampleIndex ''/a.css'' = Inr idx' \<and> oneBased idx')
   \<and> (\<exists>idx'. indexWorkspace exampleWorld exampleIndex [''/a.css'', ''/b.css''] = Inr idx'
          \<and> oneBased idx')
   \<and> recordOf ''/b.css'' helperRule ''.btn'' \<in> set (ruleClasses ''/b.css'' helperRule)
   \<and> line (recordOf ''/b.css'' helperRule ''.btn'') = 3
   \<and> column (recordOf ''/b.css'' helperRule ''.btn'') = 1"
proof -
  let ?c = "recordOf ''/b.css'' helperRule ''.btn''"
  note h0 = parserContract_exampleWorld
  have h1: "?c \<in> set (ruleClasses ''/b.css'' helperRule)" by code_simp
  have h2: "indexFile exampleWorld [] ''/b.css'' = Inr [(''btn'', ?c)]" by code_simp
  have h3: "(''btn'', ?c) \<in> set [(''btn'', ?c)]" "(''btn'', ?c) \<notin> set []" by simp_all
  have h4: "oneBased exampleIndex" by code_simp
  have v: "(case rule_line helperRule of None \<Rightarrow> 0 | Some l \<Rightarrow> l) = 3"
    "(case rule_column helperRule of None \<Rightarrow> 0 | Some n \<Rightarrow> n) = 1"
    by (simp_all add: helperRule_def)
  note inst = C9_source_position [OF h0, where idx = "[]" and p = "''/b.css''"
      and idx' = "[(''btn'', ?c)]" and k = "''btn''" and c' = ?c
      and r = ?c and filePath = "''/b.css''" and rule = helperRule]
  note inst2 = C9_source_position [OF h0, where idx = exampleIndex and p = "''/a.css''"
      and files = "[''/a.css'', ''/b.css'']"]
  from inst h2 h3 have p1: "1 \<le> line ?c" "1 \<le> column ?c"
    by blast+
  from inst2 h4 have p2: "\<exists>idx'. indexFile exampleWorld exampleIndex ''/a.css'' = Inr idx' \<and> oneBased idx'"
    "\<exists>idx'. indexWorkspace exampleWorld exampleIndex [''/a.css'', ''/b.css''] = Inr idx'
          \<and> oneBased idx'"
    by blast+
  from inst h1 have "line ?c = (case rule_line helperRule of None \<Rightarrow> 0 | Some l \<Rightarrow> l)"
    "column ?c = (case rule_column helperRule of None \<Rightarrow> 0 | Some n \<Rightarrow> n)"
    by blast+
  then have p3: "line ?c = 3" "column ?c = 1"
    by (simp_all only: v)
  from h0 h2 p1 h4 p2 h1 p3 show ?thesis by (intro conjI)
qed




section \<open>Indexing a file\<close>

text \<open>
  Claim C4, as amended. \<open>indexFile\<close> always returns. When the file is read and the parser
  fails on it, \<open>parseCSS\<close> returns no class and one diagnostic, and the index afterwards is
  the old one without the records of the file. When reading the file fails, the index is
  left as it was, the earlier records of the file included.
\<close>

theorem C4_indexFile_failures:
  "(\<exists>idx'. indexFile w idx p = Inr idx')
   \<and> (readFileSync w p = Inr content \<and> processorFor w p content p = Inl e \<longrightarrow>
         classes (parseCSS w content p) = []
       \<and> errors (parseCSS w content p) = [''Failed to parse '' @ p @ '': '' @ error_text e]
       \<and> indexFile w idx p = Inr (removeClassesFromFile idx p)
       \<and> list_all (\<lambda>(k, c). sourceFile c \<noteq> p) (removeClassesFromFile idx p))
   \<and> (readFileSync w p = Inl e' \<longrightarrow> indexFile w idx p = Inr idx)"
proof -
  have "list_all (\<lambda>(k, c). sourceFile c \<noteq> p) (removeClassesFromFile idx p)"
    using removeClassesFromFile_gone [of _ _ idx p] by (auto simp: list_all_iff)
  then show ?thesis
    using indexFile_returns [of w idx p] indexFile_unreadable [of w p e' idx]
      indexFile_read [of w p content idx]
    by (auto simp: parseCSS_classes parseCSS_errors setAll_def)
qed

theorem C4_indexFile_failures_witness:
  "readFileSync brokenWorld ''/b.css'' = Inr ''.primary { color: red''
   \<and> processorFor brokenWorld ''/b.css'' ''.primary { color: red'' ''/b.css''
        = Inl (CssSyntaxError ''Unclosed block'')
   \<and> errors (parseCSS brokenWorld ''.primary { color: red'' ''/b.css'')
        = [''Failed to parse /b.css: CssSyntaxError: Unclosed block'']
   \<and> indexFile brokenWorld exampleIndex ''/b.css''
        = Inr (removeClassesFromFile exampleIndex ''/b.css'')
   \<and> list_all (\<lambda>(k, c). sourceFile c \<noteq> ''/b.css'') (removeClassesFromFile exampleIndex ''/b.css'')
   \<and> readFileSync goneWorld ''/b.css'' = Inl (FsError ''ENOENT: no such file'')
   \<and> indexFile goneWorld exampleIndex ''/b.css'' = Inr exampleIndex"
proof -
  have h1: "readFileSync brokenWorld ''/b.css'' = Inr ''.primary { color: red''"
    by (simp add: brokenWorld_def)
  have h2: "processorFor brokenWorld ''/b.css'' ''.primary { color: red'' ''/b.css''
        = Inl (CssSyntaxError ''Unclosed block'')"
    by (simp add: brokenWorld_def processorFor_def)
  have h3: "readFileSync goneWorld ''/b.css'' = Inl (FsError ''ENOENT: no such file'')"
    by (simp add: goneWorld_def)
  have t: "''Failed to parse '' @ ''/b.css'' @ '': '' @ error_text (CssSyntaxError ''Unclosed block'')
        = ''Failed to parse /b.css: CssSyntaxError: Unclosed block''"
    by simp
  from C4_indexFile_failures [where w = brokenWorld and idx = exampleIndex and p = "''/b.css''"
      and content = "''.primary { color: red''" and e = "CssSyntaxError ''Unclosed block''"]
    h1 h2 t
  have a: "errors (parseCSS brokenWorld ''.primary { color: red'' ''/b.css'')
        = [''Failed to parse /b.css: CssSyntaxError: Unclosed block'']
   \<and> indexFile brokenWorld exampleIndex ''/b.css''
        = Inr (removeClassesFromFile exampleIndex ''/b.css'')
   \<and> list_all (\<lambda>(k, c). sourceFile c \<noteq> ''/b.css'') (removeClassesFromFile exampleIndex ''/b.css'')"
    by simp
  from C4_indexFile_failures [where w = goneWorld and idx = exampleIndex and p = "''/b.css''"
      and e' = "FsError ''ENOENT: no such file''"] h3
  have b: "indexFile goneWorld exampleIndex ''/b.css'' = Inr exampleIndex"
    by blast
  from h1 h2 h3 a b show ?thesis by (intro conjI) simp_all
qed

text \<open>Claim C4 as stated fails for a read failure: the file \<open>/b.css\<close> keeps its record
  \<open>primary\<close> in the index, while a file that is read and yields zero classes loses it.\<close>

theorem C4_read_failure_counterexample:
  "indexFile goneWorld exampleIndex ''/b.css'' = Inr exampleIndex
   \<and> map name (getAllClasses exampleIndex) = [''xyz'', ''btn-primary'', ''primary'']
   \<and> map sourceFile (getAllClasses exampleIndex) = [''/a.css'', ''/a.css'', ''/b.css'']
   \<and> classes (parseCSS emptyWorld [] ''/b.css'') = []
   \<and> indexFile emptyWorld exampleIndex ''/b.css'' = Inr (take 2 exampleIndex)"
  by code_simp

text \<open>
  Claim C3. On an index with one entry per name, indexing a readable file removes the
  records whose \<open>sourceFile\<close> is that path and then sets the parsed records by name, in
  their order. When two different files both define a class \<open>N\<close> and are indexed one after
  the other, the lookup of \<open>N\<close> returns the record of the second file: the last record named
  \<open>N\<close> that its parse produced, unchanged. The index has one entry per name after each step.
\<close>

theorem C3_last_write_wins:
  assumes "distinct (map fst idx)"
    and "readFileSync w fileA = Inr contentA" and "readFileSync w fileB = Inr contentB"
    and "fileA \<noteq> fileB"
    and "N \<in> set (map name (classes (parseCSS w contentA fileA)))"
    and "N \<in> set (map name (classes (parseCSS w contentB fileB)))"
  shows "\<exists>idx1 idx2.
           indexFile w idx fileA = Inr idx1 \<and> indexFile w idx1 fileB = Inr idx2
         \<and> idx1 = setAll (filter (\<lambda>(k, c). sourceFile c \<noteq> fileA) idx)
                    (classes (parseCSS w contentA fileA))
         \<and> idx2 = setAll (filter (\<lambda>(k, c). sourceFile c \<noteq> fileB) idx1)
                    (classes (parseCSS w contentB fileB))
         \<and> getClass idx2 N
             = Some (last (filter (\<lambda>c. name c = N) (classes (parseCSS w contentB fileB))))
         \<and> (\<exists>c \<in> set (classes (parseCSS w contentB fileB)).
               getClass idx2 N = Some c \<and> name c = N \<and> sourceFile c = fileB)
         \<and> distinct (map fst idx1) \<and> distinct (map fst idx2)"
proof -
  let ?clsA = "classes (parseCSS w contentA fileA)"
  let ?clsB = "classes (parseCSS w contentB fileB)"
  let ?idx1 = "setAll (filter (\<lambda>(k, c). sourceFile c \<noteq> fileA) idx) ?clsA"
  let ?idx2 = "setAll (filter (\<lambda>(k, c). sourceFile c \<noteq> fileB) ?idx1) ?clsB"
  let ?fs = "filter (\<lambda>c. name c = N) ?clsB"
  have i1: "indexFile w idx fileA = Inr ?idx1"
    using indexFile_read [OF assms(2), of idx] removeClassesFromFile_filter [OF assms(1), of fileA]
    by simp
  have d1: "distinct (map fst ?idx1)"
    using assms(1) by (intro distinct_setAll) (simp add: distinct_map_filter)
  have i2: "indexFile w ?idx1 fileB = Inr ?idx2"
    using indexFile_read [OF assms(3), of ?idx1] removeClassesFromFile_filter [OF d1, of fileB]
    by simp
  have d2: "distinct (map fst ?idx2)"
    using d1 by (intro distinct_setAll) (simp add: distinct_map_filter)
  from assms(6) have ne: "?fs \<noteq> []"
    by (auto simp: filter_empty_conv)
  then have g: "getClass ?idx2 N = Some (last ?fs)"
    by (simp add: getClass_def map_of_setAll)
  from ne have "last ?fs \<in> set ?fs" by (rule last_in_set)
  then have m: "last ?fs \<in> set ?clsB" and n: "name (last ?fs) = N"
    by simp_all
  from m have sf: "sourceFile (last ?fs) = fileB"
    by (rule parseCSS_sourceFile)
  from i1 i2 d1 d2 g m n sf show ?thesis by blast
qed

theorem C3_last_write_wins_witness:
  "distinct (map fst ([] :: ClassIndex))
   \<and> readFileSync exampleWorld ''/a.css'' = Inr ''content of /a.css''
   \<and> readFileSync exampleWorld ''/b.css'' = Inr ''content of /b.css''
   \<and> ''/a.css'' \<noteq> ''/b.css''
   \<and> ''btn'' \<in> set (map name (classes (parseCSS exampleWorld ''content of /a.css'' ''/a.css'')))
   \<and> ''btn'' \<in> set (map name (classes (parseCSS exampleWorld ''content of /b.css'' ''/b.css'')))
   \<and> (\<exists>idx1 idx2.
           indexFile exampleWorld [] ''/a.css'' = Inr idx1
         \<and> indexFile exampleWorld idx1 ''/b.css'' = Inr idx2
         \<and> getClass idx2 ''btn''
             = Some (last (filter (\<lambda>c. name c = ''btn'')
                  (classes (parseCSS exampleWorld ''content of /b.css'' ''/b.css''))))
         \<and> distinct (map fst idx2))"
proof -
  have h1: "distinct (map fst ([] :: ClassIndex))" by simp
  have h2: "readFileSync exampleWorld ''/a.css'' = Inr ''content of /a.css''"
    by (simp add: exampleWorld_def)
  have h3: "readFileSync exampleWorld ''/b.css'' = Inr ''content of /b.css''"
    by (simp add: exampleWorld_def)
  have h4: "''/a.css'' \<noteq> ''/b.css''" by simp
  have h5: "''btn'' \<in> set (map name (classes (parseCSS exampleWorld ''content of /a.css'' ''/a.css'')))"
    by code_simp
  have h6: "''btn'' \<in> set (map name (classes (parseCSS exampleWorld ''content of /b.css'' ''/b.css'')))"
    by code_simp
  from C3_last_write_wins [OF h1 h2 h3 h4 h5 h6] h1 h2 h3 h4 h5 h6
  show ?thesis by blast
qed

section \<open>Description extraction\<close>

lemma includes_str_char: "includes_str s [x] \<longleftrightarrow> x \<in> set s"
  by (induction s) (auto simp: startsWith_def)

lemma descriptionGroup_Some:
  "descriptionGroup k rest = Some g \<Longrightarrow>
   \<exists>j. 1 \<le> j \<and> j \<le> k \<and> g = takeWhile (\<lambda>c. \<not> isLineTerminator c) (drop j rest) \<and> g \<noteq> []"
proof (induction k)
  case 0
  then show ?case by simp
next
  case (Suc k)
  show ?case
  proof (cases "takeWhile (\<lambda>c. \<not> isLineTerminator c) (drop (Suc k) rest) = []")
    case True
    with Suc.prems have "descriptionGroup k rest = Some g" by simp
    from Suc.IH [OF this] obtain j where
      "1 \<le> j" "j \<le> k" "g = takeWhile (\<lambda>c. \<not> isLineTerminator c) (drop j rest)" "g \<noteq> []"
      by blast
    then show ?thesis by (intro exI [of _ j]) simp
  next
    case False
    with Suc.prems have "g = takeWhile (\<lambda>c. \<not> isLineTerminator c) (drop (Suc k) rest)"
      by (simp add: Let_def)
    with False show ?thesis by (intro exI [of _ "Suc k"]) simp
  qed
qed

lemma descriptionGroup_None:
  "descriptionGroup k rest = None \<Longrightarrow> 1 \<le> j \<Longrightarrow> j \<le> k \<Longrightarrow>
   takeWhile (\<lambda>c. \<not> isLineTerminator c) (drop j rest) = []"
proof (induction k)
  case 0
  then show ?case by simp
next
  case (Suc k)
  from Suc.prems(1) have a: "takeWhile (\<lambda>c. \<not> isLineTerminator c) (drop (Suc k) rest) = []"
    and b: "descriptionGroup k rest = None"
    by (simp_all add: Let_def split: if_splits)
  show ?case
  proof (cases "j = Suc k")
    case True
    with a show ?thesis by simp
  next
    case False
    with Suc.prems have "j \<le> k" by simp
    with Suc.IH [OF b Suc.prems(2)] show ?thesis .
  qed
qed

lemma take_takeWhile_le:
  assumes "j \<le> length (takeWhile P xs)"
  shows "\<forall>x \<in> set (take j xs). P x"
proof -
  have "take j xs = take j (takeWhile P xs @ dropWhile P xs)" by simp
  also have "\<dots> = take j (takeWhile P xs)" using assms by (simp del: takeWhile_dropWhile_id)
  finally have "set (take j xs) \<subseteq> set (takeWhile P xs)"
    by (simp add: set_take_subset)
  then show ?thesis by (auto dest: set_takeWhileD)
qed

lemma descriptionMatchAt_Some:
  assumes "descriptionMatchAt s = Some g"
  shows "\<exists>ws rest. s = ''@description'' @ ws @ g @ rest
           \<and> ws \<noteq> [] \<and> list_all isWhiteSpace ws \<and> g \<noteq> []
           \<and> list_all (\<lambda>x. \<not> isLineTerminator x) g
           \<and> (rest = [] \<or> isLineTerminator (hd rest))"
proof -
  let ?rest = "drop (length ''@description'') s"
  let ?k = "length (takeWhile isWhiteSpace ?rest)"
  from assms have sw: "startsWith s ''@description''"
    and grp: "descriptionGroup ?k ?rest = Some g"
    by (simp_all add: descriptionMatchAt_def Let_def split: if_splits)
  from sw have s: "s = ''@description'' @ ?rest"
    unfolding startsWith_def by (metis append_take_drop_id)
  from descriptionGroup_Some [OF grp] obtain j where
    j: "1 \<le> j" "j \<le> ?k" and g: "g = takeWhile (\<lambda>c. \<not> isLineTerminator c) (drop j ?rest)"
    and ne: "g \<noteq> []"
    by blast
  let ?ws = "take j ?rest"
  let ?tl = "dropWhile (\<lambda>c. \<not> isLineTerminator c) (drop j ?rest)"
  have "?rest = ?ws @ drop j ?rest" by (simp only: append_take_drop_id)
  also have "drop j ?rest = g @ ?tl" unfolding g by (simp only: takeWhile_dropWhile_id)
  finally have split: "?rest = ?ws @ g @ ?tl" .
  have "?k \<le> length ?rest" by (rule length_takeWhile_le)
  with j have "?ws \<noteq> []" by auto
  moreover from j(2) have "list_all isWhiteSpace ?ws"
    unfolding list_all_iff by (rule take_takeWhile_le)
  moreover have "list_all (\<lambda>x. \<not> isLineTerminator x) g"
    unfolding g list_all_iff by (auto dest: set_takeWhileD)
  moreover have "?tl = [] \<or> isLineTerminator (hd ?tl)"
    using hd_dropWhile [of "\<lambda>c. \<not> isLineTerminator c" "drop j ?rest"] by blast
  ultimately show ?thesis
    using s split ne by metis
qed

lemma descriptionMatchAt_None:
  assumes "descriptionMatchAt s = None"
    and "s = ''@description'' @ ws @ x # rest"
    and "ws \<noteq> []" and "list_all isWhiteSpace ws" and "\<not> isLineTerminator x"
  shows False
proof -
  let ?rest = "drop (length ''@description'') s"
  let ?k = "length (takeWhile isWhiteSpace ?rest)"
  from assms(2) have sw: "startsWith s ''@description''"
    by (simp add: startsWith_def)
  from assms(2) have rest: "?rest = ws @ x # rest" by simp
  from sw assms(1) have grp: "descriptionGroup ?k ?rest = None"
    by (simp add: descriptionMatchAt_def Let_def)
  from assms(4) have "takeWhile isWhiteSpace (ws @ x # rest)
      = ws @ takeWhile isWhiteSpace (x # rest)"
    by (intro takeWhile_append2) (simp add: list_all_iff)
  then have "length ws \<le> ?k" unfolding rest by simp
  moreover from assms(3) have "1 \<le> length ws" by (cases ws) simp_all
  ultimately have "takeWhile (\<lambda>c. \<not> isLineTerminator c) (drop (length ws) ?rest) = []"
    by (rule descriptionGroup_None [OF grp, rotated])
  with assms(5) show False unfolding rest by simp
qed

lemma descriptionMatch_Some:
  "descriptionMatch c = Some g \<Longrightarrow>
   \<exists>pre ws rest. c = pre @ ''@description'' @ ws @ g @ rest
           \<and> ws \<noteq> [] \<and> list_all isWhiteSpace ws \<and> g \<noteq> []
           \<and> list_all (\<lambda>x. \<not> isLineTerminator x) g
           \<and> (rest = [] \<or> isLineTerminator (hd rest))"
proof (induction c)
  case Nil
  then show ?case by simp
next
  case (Cons x xs)
  show ?case
  proof (cases "descriptionMatchAt (x # xs)")
    case None
    with Cons.prems have "descriptionMatch xs = Some g" by simp
    from Cons.IH [OF this] obtain pre ws rest where
      "xs = pre @ ''@description'' @ ws @ g @ rest" "ws \<noteq> []" "list_all isWhiteSpace ws"
      "g \<noteq> []" "list_all (\<lambda>x. \<not> isLineTerminator x) g" "rest = [] \<or> isLineTerminator (hd rest)"
      by blast
    then show ?thesis
      by (intro exI [of _ "x # pre"] exI [of _ ws] exI [of _ rest]) simp
  next
    case (Some g')
    with Cons.prems have "g' = g" by simp
    with Some descriptionMatchAt_Some [of "x # xs" g] show ?thesis
      by (metis append_Nil)
  qed
qed

lemma descriptionMatch_None:
  "descriptionMatch c = None \<Longrightarrow> \<not> descriptionMarker c"
proof (induction c)
  case Nil
  show ?case by (simp add: descriptionMarker_def)
next
  case (Cons y ys)
  from Cons.prems have at: "descriptionMatchAt (y # ys) = None"
    and tl: "descriptionMatch ys = None"
    by (simp_all split: option.splits)
  show ?case
  proof
    assume "descriptionMarker (y # ys)"
    then obtain pre ws x rest where
      c: "y # ys = pre @ ''@description'' @ ws @ x # rest" and
      w: "ws \<noteq> []" "list_all isWhiteSpace ws" "\<not> isLineTerminator x"
      unfolding descriptionMarker_def by blast
    show False
    proof (cases pre)
      case Nil
      with c have "y # ys = ''@description'' @ ws @ x # rest" by simp
      from descriptionMatchAt_None [OF at this w] show False .
    next
      case (Cons p pre')
      with c have "ys = pre' @ ''@description'' @ ws @ x # rest" by simp
      with w have "descriptionMarker ys"
        unfolding descriptionMarker_def by blast
      with Cons.IH [OF tl] show False by contradiction
    qed
  qed
qed

lemma descriptionMatch_iff: "descriptionMatch c \<noteq> None \<longleftrightarrow> descriptionMarker c"
proof
  assume "descriptionMatch c \<noteq> None"
  then obtain g where "descriptionMatch c = Some g" by blast
  from descriptionMatch_Some [OF this] obtain pre ws rest where
    c: "c = pre @ ''@description'' @ ws @ g @ rest" and w: "ws \<noteq> []" "list_all isWhiteSpace ws"
    and g: "g \<noteq> []" "list_all (\<lambda>x. \<not> isLineTerminator x) g"
    by blast
  from g obtain x g' where x: "g = x # g'" "\<not> isLineTerminator x"
    by (cases g) simp_all
  with c have "c = pre @ ''@description'' @ ws @ x # (g' @ rest)" by simp
  with w x(2) show "descriptionMarker c"
    unfolding descriptionMarker_def by blast
next
  assume "descriptionMarker c"
  with descriptionMatch_None [of c] show "descriptionMatch c \<noteq> None" by blast
qed

text \<open>
  Claim C8. For a rule behind a comment, with the comment text trimmed: when the text matches
  the \<open>@description\<close> pattern the description is the captured text, trimmed; otherwise,
  when the text contains no \<open>@\<close> and is shorter than 100 characters, the description is the
  whole trimmed text; otherwise there is none. A rule that is not behind a comment has none.
  The pattern matches exactly the texts with a description marker, and the captured text
  stands behind \<open>@description\<close> and white space and runs to the end of its line. A comment
  with \<open>@category Layout\<close> and no \<open>@description\<close> gives no description.
\<close>

theorem C8_description_extraction:
  "(rule_prev rule = Comment t \<longrightarrow>
      (descriptionMatch (trim t) = Some g \<longrightarrow> extractDescription rule = Some (trim g))
    \<and> (descriptionMatch (trim t) = None \<and> CHR ''@'' \<notin> set (trim t)
          \<and> length (trim t) < 100
        \<longrightarrow> extractDescription rule = Some (trim t))
    \<and> (descriptionMatch (trim t) = None
          \<and> (CHR ''@'' \<in> set (trim t) \<or> 100 \<le> length (trim t))
        \<longrightarrow> extractDescription rule = None))
   \<and> (rule_prev rule = NoNode \<or> rule_prev rule = OtherNode \<longrightarrow> extractDescription rule = None)
   \<and> (descriptionMatch c \<noteq> None \<longleftrightarrow> descriptionMarker c)
   \<and> (descriptionMatch c = Some g' \<longrightarrow>
        (\<exists>pre ws rest. c = pre @ ''@description'' @ ws @ g' @ rest
           \<and> ws \<noteq> [] \<and> list_all isWhiteSpace ws \<and> g' \<noteq> []
           \<and> list_all (\<lambda>x. \<not> isLineTerminator x) g'
           \<and> (rest = [] \<or> isLineTerminator (hd rest))))
   \<and> extractDescription docRule = Some ''Centers content''
   \<and> extractDescription helperRule = Some ''helper''
   \<and> extractDescription (helperRule\<lparr>rule_prev := Comment ''@category Layout''\<rparr>) = None
   \<and> extractDescription (helperRule\<lparr>rule_prev := Comment readmeComment\<rparr>)
        = Some ''Centers content horizontally and vertically''"
proof -
  have e1: "extractDescription docRule = Some ''Centers content''"
    by code_simp
  have e2: "extractDescription helperRule = Some ''helper''"
    by code_simp
  have e3: "extractDescription (helperRule\<lparr>rule_prev := Comment ''@category Layout''\<rparr>) = None"
    by code_simp
  have e4: "extractDescription (helperRule\<lparr>rule_prev := Comment readmeComment\<rparr>)
        = Some ''Centers content horizontally and vertically''"
    by code_simp
  have a: "rule_prev rule = Comment t \<longrightarrow>
      (descriptionMatch (trim t) = Some g \<longrightarrow> extractDescription rule = Some (trim g))
    \<and> (descriptionMatch (trim t) = None \<and> CHR ''@'' \<notin> set (trim t)
          \<and> length (trim t) < 100
        \<longrightarrow> extractDescription rule = Some (trim t))
    \<and> (descriptionMatch (trim t) = None
          \<and> (CHR ''@'' \<in> set (trim t) \<or> 100 \<le> length (trim t))
        \<longrightarrow> extractDescription rule = None)"
    by (auto simp: extractDescription_def Let_def includes_str_char)
  have b: "rule_prev rule = NoNode \<or> rule_prev rule = OtherNode \<longrightarrow> extractDescription rule = None"
    by (auto simp: extractDescription_def)
  from a b e1 e2 e3 e4 descriptionMatch_iff [of c] descriptionMatch_Some [of c g']
  show ?thesis by (intro conjI impI) blast+
qed

theorem C8_description_extraction_witness:
  "rule_prev helperRule = Comment '' helper ''
   \<and> descriptionMatch (trim '' helper '') = None
   \<and> CHR ''@'' \<notin> set (trim '' helper '') \<and> length (trim '' helper '') < 100
   \<and> extractDescription helperRule = Some (trim '' helper '')
   \<and> rule_prev docRule = Comment ''* @description Centers content ''
   \<and> descriptionMatch (trim ''* @description Centers content '') = Some ''Centers content''
   \<and> extractDescription docRule = Some (trim ''Centers content'')
   \<and> descriptionMarker (trim ''* @description Centers content '')"
proof -
  have h1: "rule_prev helperRule = Comment '' helper ''"
    by (simp add: helperRule_def)
  have h2: "descriptionMatch (trim '' helper '') = None"
    "CHR ''@'' \<notin> set (trim '' helper '')" "length (trim '' helper '') < 100"
    by code_simp+
  have h3: "rule_prev docRule = Comment ''* @description Centers content ''"
    by (simp add: docRule_def)
  have h4: "descriptionMatch (trim ''* @description Centers content '') = Some ''Centers content''"
    by code_simp
  from C8_description_extraction [where rule = helperRule and t = "'' helper ''"] h1 h2
  have a: "extractDescription helperRule = Some (trim '' helper '')"
    by blast
  from C8_description_extraction [where rule = docRule
      and t = "''* @description Centers content ''" and g = "''Centers content''"
      and c = "trim ''* @description Centers content ''"] h3 h4
  have b: "extractDescription docRule = Some (trim ''Centers content'')"
    and c: "descriptionMarker (trim ''* @description Centers content '')"
    by simp_all
  from h1 h2 h3 h4 a b c show ?thesis by (intro conjI)
qed

end
